theory Spec2Isabelle
  imports Main
begin

section \<open>JavaScript values and strings\<close>

text \<open>
  The two functions of \<^verbatim>\<open>src/server.ts\<close> are declared on \<^verbatim>\<open>string\<close>, but both
  test their argument at run time (\<^verbatim>\<open>!raw\<close>, \<^verbatim>\<open>typeof pastDate !== 'string'\<close>), so the
  argument is modelled as a JavaScript value. Numbers are represented by the integers and
  \<^verbatim>\<open>NaN\<close>. \<open>JSObject\<close> stands for an object without a callable \<^verbatim>\<open>trim\<close> property,
  \<open>JSTrimObject r\<close> for an object with one: \<open>r\<close> is what the call \<^verbatim>\<open>x.trim()\<close> does, return
  a value or throw. The wrapper \<^verbatim>\<open>new String(s)\<close> is \<open>JSTrimObject (Inr (JSString (trim s)))\<close>,
  and \<^verbatim>\<open>{trim() { return 5 }}\<close> is \<open>JSTrimObject (Inr (JSNumber 5))\<close>. Of the methods that
  the source calls, \<^verbatim>\<open>trim\<close> is the only one that an object of the model has.

  Strings are HOL strings: sequences of code units in the range U+0000 to U+00FF. On that
  range the built-ins used by the source (\<^verbatim>\<open>trim\<close>, \<^verbatim>\<open>toLowerCase\<close>, \<^verbatim>\<open>padStart\<close>,
  \<^verbatim>\<open>replace\<close>, the classes \<^verbatim>\<open>\d\<close> and \<^verbatim>\<open>\s\<close>) are written out as ECMAScript defines
  them.
\<close>

text \<open>
  What a call can throw: the \<^verbatim>\<open>TypeError\<close> of the language, or whatever a \<^verbatim>\<open>trim\<close>
  method of the caller's own throws.
\<close>

datatype js_error = TypeError | Thrown

datatype js_value =
    JSUndefined
  | JSNull
  | JSBoolean bool
  | JSNumber int
  | JSNaN
  | JSString string
  | JSObject
  | JSTrimObject "js_error + js_value"

text \<open>\<^verbatim>\<open>ToBoolean\<close>, as used by \<^verbatim>\<open>!x\<close>.\<close>

fun truthy :: "js_value \<Rightarrow> bool" where
  "truthy JSUndefined = False"
| "truthy JSNull = False"
| "truthy (JSBoolean b) = b"
| "truthy (JSNumber n) = (n \<noteq> 0)"
| "truthy JSNaN = False"
| "truthy (JSString s) = (s \<noteq> [])"
| "truthy JSObject = True"
| "truthy (JSTrimObject r) = True"

fun typeof :: "js_value \<Rightarrow> string" where
  "typeof JSUndefined = ''undefined''"
| "typeof JSNull = ''object''"
| "typeof (JSBoolean b) = ''boolean''"
| "typeof (JSNumber n) = ''number''"
| "typeof JSNaN = ''number''"
| "typeof (JSString s) = ''string''"
| "typeof JSObject = ''object''"
| "typeof (JSTrimObject r) = ''object''"

text \<open>The class \<^verbatim>\<open>\d\<close> is the ten ASCII digits.\<close>

definition is_digit :: "char \<Rightarrow> bool" where
  "is_digit c = (c \<in> set ''0123456789'')"

text \<open>
  White space and line terminators below U+0100: TAB, LF, VT, FF, CR, SPACE and NBSP.
  This is both the class \<^verbatim>\<open>\s\<close> and what \<^verbatim>\<open>trim\<close> strips.
\<close>

definition is_space :: "char \<Rightarrow> bool" where
  "is_space c = (c \<in> set [CHR 0x09, CHR 0x0A, CHR 0x0B, CHR 0x0C, CHR 0x0D, CHR 0x20, CHR 0xA0])"

text \<open>The class \<^verbatim>\<open>[-./_]\<close>.\<close>

definition is_sep :: "char \<Rightarrow> bool" where
  "is_sep c = (c \<in> set ''-./_'')"

definition trim :: "string \<Rightarrow> string" where
  "trim s = rev (dropWhile is_space (rev (dropWhile is_space s)))"

text \<open>
  A method call \<^verbatim>\<open>x.trim()\<close>. On a string it is \<^verbatim>\<open>String.prototype.trim\<close>; on an object
  with a callable \<^verbatim>\<open>trim\<close> it does what that method does. On \<^verbatim>\<open>undefined\<close> and
  \<^verbatim>\<open>null\<close> the property access throws, and on a boolean, a number and an object without
  the method the call of \<^verbatim>\<open>undefined\<close> throws, a \<^verbatim>\<open>TypeError\<close> in both cases.
\<close>

fun call_trim :: "js_value \<Rightarrow> js_error + js_value" where
  "call_trim (JSString s) = Inr (JSString (trim s))"
| "call_trim (JSTrimObject r) = r"
| "call_trim v = Inl TypeError"

text \<open>
  \<^verbatim>\<open>toLowerCase\<close>: below U+0100 the upper-case letters are A to Z and U+00C0 to U+00DE
  without the multiplication sign U+00D7; each maps to the code unit 32 above it.
\<close>

definition lower_char :: "char \<Rightarrow> char" where
  "lower_char c =
     (let n = (of_char c :: nat)
      in if (65 \<le> n \<and> n \<le> 90) \<or> (192 \<le> n \<and> n \<le> 222 \<and> n \<noteq> 215)
         then char_of (n + 32) else c)"

definition toLowerCase :: "string \<Rightarrow> string" where
  "toLowerCase s = map lower_char s"

text \<open>\<^verbatim>\<open>s.replace(/,/g, '')\<close>.\<close>

definition strip_commas :: "string \<Rightarrow> string" where
  "strip_commas s = filter (\<lambda>c. c \<noteq> CHR '','') s"

text \<open>\<^verbatim>\<open>s.padStart(n, c)\<close> with a one-character filler.\<close>

definition padStart :: "nat \<Rightarrow> char \<Rightarrow> string \<Rightarrow> string" where
  "padStart n c s = replicate (n - length s) c @ s"

text \<open>
  The value of a string of decimal digits, for \<^verbatim>\<open>+month\<close> and \<^verbatim>\<open>+day\<close> and for the
  fields of a date string. Every string it is applied to consists of ASCII digits.
\<close>

definition digit_val :: "char \<Rightarrow> nat" where
  "digit_val c = of_char c - 48"

definition decimal :: "string \<Rightarrow> nat" where
  "decimal s = foldl (\<lambda>n c. 10 * n + digit_val c) 0 s"

section \<open>Regular expressions\<close>

text \<open>
  The fragment of regular expressions that the source uses: a quantified character class
  (\<^verbatim>\<open>\d{4}\<close>, \<^verbatim>\<open>\d{1,2}\<close>, \<^verbatim>\<open>\s+\<close>, \<^verbatim>\<open>[-./_]\<close>), an alternation of literal words,
  an optional part, a capturing group and concatenation. \<open>rx_match r s\<close> lists every way
  \<open>r\<close> matches a prefix of \<open>s\<close>, as the captured groups and the rest of the input, in the
  order in which a backtracking matcher tries them: quantifiers are greedy, alternatives are
  tried from left to right, an optional part is tried before it is skipped.
\<close>

datatype regex =
    Rep "char \<Rightarrow> bool" nat "nat option"
  | Alts "string list"
  | Opt regex
  | Group regex
  | Seq regex regex
  | Eps

fun rx_match :: "regex \<Rightarrow> string \<Rightarrow> (string list \<times> string) list" where
  "rx_match (Rep P lo hi) s =
     (let run = length (takeWhile P s);
          top = (case hi of None \<Rightarrow> run | Some h \<Rightarrow> min h run)
      in map (\<lambda>n. ([], drop n s)) (rev [lo ..< Suc top]))"
| "rx_match (Alts ws) s =
     map (\<lambda>w. ([], drop (length w) s)) (filter (\<lambda>w. take (length w) s = w) ws)"
| "rx_match (Opt r) s = rx_match r s @ [([], s)]"
| "rx_match (Group r) s =
     map (\<lambda>(caps, rest). (take (length s - length rest) s # caps, rest)) (rx_match r s)"
| "rx_match (Seq a b) s =
     concat (map (\<lambda>(c1, r1). map (\<lambda>(c2, r2). (c1 @ c2, r2)) (rx_match b r1)) (rx_match a s))"
| "rx_match Eps s = [([], s)]"

text \<open>
  A pattern between \<^verbatim>\<open>^\<close> and \<^verbatim>\<open>$\<close> (no flags): the first way to match that consumes
  the whole input. \<open>regexp_match\<close> is \<^verbatim>\<open>s.match(re)\<close> without the leading whole-match
  element, \<open>regexp_test\<close> is \<^verbatim>\<open>re.test(s)\<close>.
\<close>

definition regexp_match :: "regex \<Rightarrow> string \<Rightarrow> string list option" where
  "regexp_match r s =
     (case filter (\<lambda>(caps, rest). rest = []) (rx_match r s) of
        [] \<Rightarrow> None
      | (caps, rest) # more \<Rightarrow> Some caps)"

definition regexp_test :: "regex \<Rightarrow> string \<Rightarrow> bool" where
  "regexp_test r s = (regexp_match r s \<noteq> None)"

fun cat :: "regex list \<Rightarrow> regex" where
  "cat [] = Eps"
| "cat (r # rs) = Seq r (cat rs)"

definition Lit :: "string \<Rightarrow> regex" where
  "Lit w = Alts [w]"

definition digits :: "nat \<Rightarrow> nat \<Rightarrow> regex" where
  "digits lo hi = Rep is_digit lo (Some hi)"

definition spaces1 :: regex where
  "spaces1 = Rep is_space 1 None"

section \<open>normaliseDate\<close>

definition MONTHS :: "(string \<times> string) list" where
  "MONTHS =
     [(''january'', ''01''), (''february'', ''02''), (''march'', ''03''), (''april'', ''04''),
      (''may'', ''05''), (''june'', ''06''), (''july'', ''07''), (''august'', ''08''),
      (''september'', ''09''), (''october'', ''10''), (''november'', ''11''),
      (''december'', ''12'')]"

text \<open>\<^verbatim>\<open>${MONTHS[mon]}\<close>: a missing key reads \<^verbatim>\<open>undefined\<close>, printed as such.\<close>

definition MONTHS_get :: "string \<Rightarrow> string" where
  "MONTHS_get mon = (case map_of MONTHS mon of Some v \<Rightarrow> v | None \<Rightarrow> ''undefined'')"

definition month_names :: "string list" where
  "month_names =
     [''january'', ''february'', ''march'', ''april'', ''may'', ''june'', ''july'', ''august'',
      ''september'', ''october'', ''november'', ''december'']"

definition ordinal_suffix :: regex where
  "ordinal_suffix = Opt (Alts [''st'', ''nd'', ''rd'', ''th''])"

text \<open>\<^verbatim>\<open>/^(\d{4})[-./_](\d{1,2})[-./_](\d{1,2})$/\<close>\<close>

definition rx_direct :: regex where
  "rx_direct =
     cat [Group (digits 4 4), Rep is_sep 1 (Some 1), Group (digits 1 2),
          Rep is_sep 1 (Some 1), Group (digits 1 2)]"

text \<open>\<^verbatim>\<open>/^(january|...|december)\s+(\d{1,2})(?:st|nd|rd|th)?\s+(\d{4})$/\<close>\<close>

definition rx_month_first :: regex where
  "rx_month_first =
     cat [Group (Alts month_names), spaces1, Group (digits 1 2), ordinal_suffix,
          spaces1, Group (digits 4 4)]"

text \<open>\<^verbatim>\<open>/^(\d{1,2})(?:st|nd|rd|th)?\s+(january|...|december)\s+(\d{4})$/\<close>\<close>

definition rx_day_first :: regex where
  "rx_day_first =
     cat [Group (digits 1 2), ordinal_suffix, spaces1, Group (Alts month_names),
          spaces1, Group (digits 4 4)]"

text \<open>
  The second half of \<^verbatim>\<open>normaliseDate\<close>, from the \<^verbatim>\<open>MONTHS\<close> table to the final
  \<^verbatim>\<open>return ''\<close>. A destructured group that is missing would be \<^verbatim>\<open>undefined\<close> and its
  \<^verbatim>\<open>padStart\<close> call would throw; each pattern has exactly three groups.
\<close>

definition month_name_branches :: "string \<Rightarrow> js_error + string" where
  "month_name_branches s =
     (let lowered = strip_commas (toLowerCase s)
      in case regexp_match rx_month_first lowered of
           Some m1 \<Rightarrow>
             (case m1 of
                [mon, d, y] \<Rightarrow>
                  (let day = padStart 2 (CHR ''0'') d
                   in Inr (y @ ''-'' @ MONTHS_get mon @ ''-'' @ day))
              | _ \<Rightarrow> Inl TypeError)
         | None \<Rightarrow>
             (case regexp_match rx_day_first lowered of
                Some m2 \<Rightarrow>
                  (case m2 of
                     [d, mon, y] \<Rightarrow>
                       (let day = padStart 2 (CHR ''0'') d
                        in Inr (y @ ''-'' @ MONTHS_get mon @ ''-'' @ day))
                   | _ \<Rightarrow> Inl TypeError)
              | None \<Rightarrow> Inr ''''))"

text \<open>
  \<^verbatim>\<open>normaliseDate\<close> up to the numeric branch; where that branch does not return, the
  function goes on with the month-name branches. The numeric pattern has three groups, so
  the destructuring \<^verbatim>\<open>[, y, m, d]\<close> finds three strings; on any other list a group
  would be \<^verbatim>\<open>undefined\<close> and \<^verbatim>\<open>padStart\<close> would throw. Where \<^verbatim>\<open>raw.trim()\<close> has
  returned a value that is not a string, the call \<^verbatim>\<open>s.match(...)\<close> throws a
  \<^verbatim>\<open>TypeError\<close>: no other value of the model has a \<^verbatim>\<open>match\<close> method.
\<close>

definition normaliseDate :: "js_value \<Rightarrow> js_error + string" where
  "normaliseDate raw =
     (if \<not> truthy raw then Inr ''''
      else case call_trim raw of
        Inl e \<Rightarrow> Inl e
      | Inr (JSString s) \<Rightarrow>
          (case regexp_match rx_direct s of
             Some direct \<Rightarrow>
               (case direct of
                  [y, m, d] \<Rightarrow>
                    (let month = padStart 2 (CHR ''0'') m;
                         day = padStart 2 (CHR ''0'') d
                     in if decimal month \<ge> 1 \<and> decimal month \<le> 12
                           \<and> decimal day \<ge> 1 \<and> decimal day \<le> 31
                        then Inr (y @ ''-'' @ month @ ''-'' @ day)
                        else month_name_branches s)
                | _ \<Rightarrow> Inl TypeError)
           | None \<Rightarrow> month_name_branches s)
      | Inr _ \<Rightarrow> Inl TypeError)"

section \<open>getWeekOffset\<close>

text \<open>
  \<^verbatim>\<open>new Date(trimmed + 'T00:00:00Z')\<close> parses a date-time string. ECMAScript fixes the
  result when the month is in 01..12 and the day exists in that month, and an invalid date
  when the month is outside 01..12 or the day outside 01..31. For a day up to 31 that the
  month does not have (\<^verbatim>\<open>2025-02-30\<close>) engines differ: V8, on which the server runs under
  Node, carries the surplus days into the next month, others give an invalid date. The
  policy is a parameter.
\<close>

datatype date_policy = Lenient | Strict

definition leap_year :: "int \<Rightarrow> bool" where
  "leap_year y = ((y mod 4 = 0 \<and> y mod 100 \<noteq> 0) \<or> y mod 400 = 0)"

definition days_in_month :: "int \<Rightarrow> nat \<Rightarrow> nat" where
  "days_in_month y m =
     (if m = 2 then (if leap_year y then 29 else 28)
      else if m \<in> {4, 6, 9, 11} then 30 else 31)"

text \<open>ECMAScript's \<^verbatim>\<open>DayFromYear\<close> and \<^verbatim>\<open>MakeDay\<close> (month from 1 here), in days since 1970-01-01.\<close>

definition DayFromYear :: "int \<Rightarrow> int" where
  "DayFromYear y =
     365 * (y - 1970) + (y - 1969) div 4 - (y - 1901) div 100 + (y - 1601) div 400"

definition days_before_month :: "int \<Rightarrow> nat \<Rightarrow> int" where
  "days_before_month y m =
     int ([0, 31, 59, 90, 120, 151, 181, 212, 243, 273, 304, 334] ! (m - 1))
     + (if leap_year y \<and> m > 2 then 1 else 0)"

definition MakeDay :: "int \<Rightarrow> nat \<Rightarrow> nat \<Rightarrow> int" where
  "MakeDay y m d = DayFromYear y + days_before_month y m + int d - 1"

definition msPerDay :: int where
  "msPerDay = 86400000"

text \<open>\<^verbatim>\<open>/^(\d{4})-(\d{2})-(\d{2})T00:00:00Z$/\<close>: the only date-time strings that reach the parser.\<close>

definition rx_date_time :: regex where
  "rx_date_time =
     cat [Group (digits 4 4), Lit ''-'', Group (digits 2 2), Lit ''-'', Group (digits 2 2),
          Lit ''T00:00:00Z'']"

text \<open>The time value of the parsed date in milliseconds; \<open>None\<close> is the invalid date (\<^verbatim>\<open>NaN\<close>).\<close>

definition Date_parse :: "date_policy \<Rightarrow> string \<Rightarrow> int option" where
  "Date_parse pol s =
     (case regexp_match rx_date_time s of
        Some [y, m, d] \<Rightarrow>
          (let year = decimal y; month = decimal m; day = decimal d;
               last_day = (case pol of Lenient \<Rightarrow> 31 | Strict \<Rightarrow> days_in_month (int year) month)
           in if month < 1 \<or> month > 12 \<or> day < 1 \<or> day > last_day then None
              else let t = MakeDay (int year) month day * msPerDay
                   in if abs t > 8640000000000000 then None else Some t)
      | _ \<Rightarrow> None)"

text \<open>\<^verbatim>\<open>/^\d{4}-\d{2}-\d{2}$/\<close>\<close>

definition rx_iso :: regex where
  "rx_iso = cat [digits 4 4, Lit ''-'', digits 2 2, Lit ''-'', digits 2 2]"

text \<open>
  \<^verbatim>\<open>getWeekOffset\<close> reads the clock with \<^verbatim>\<open>new Date()\<close>; the time value read, an integral
  number of milliseconds, is the parameter \<open>now\<close>. Time values are integers below \<open>2^53\<close>,
  so the subtraction is exact, and \<^verbatim>\<open>Math.floor\<close> of the quotient by the number of
  milliseconds in a week is the integer quotient. Past the first guard \<^verbatim>\<open>pastDate\<close> is a
  primitive string and \<^verbatim>\<open>pastDate.trim()\<close> returns a string; the last case of the
  definition is there for totality and is never taken (\<open>getWeekOffset_eq\<close> below).
\<close>

definition getWeekOffset :: "date_policy \<Rightarrow> js_value \<Rightarrow> int \<Rightarrow> js_error + int" where
  "getWeekOffset pol pastDate now =
     (if \<not> truthy pastDate \<or> typeof pastDate \<noteq> ''string'' then Inr 0
      else case call_trim pastDate of
        Inl e \<Rightarrow> Inl e
      | Inr (JSString trimmed) \<Rightarrow>
          (if \<not> regexp_test rx_iso trimmed then Inr 0
           else (case Date_parse pol (trimmed @ ''T00:00:00Z'') of
             None \<Rightarrow> Inr 0
           | Some past \<Rightarrow>
               (let future = (past > now);
                    diffTime = abs (now - past);
                    diffWeeks = diffTime div (1000 * 60 * 60 * 24 * 7);
                    result = diffWeeks + 1;
                    result = (if result < 1 then 1 else result);
                    result = (if future then (if result \<noteq> 1 then 1 else result) else result)
                in Inr result)))
      | Inr _ \<Rightarrow> Inl TypeError)"

section \<open>Vocabulary of the properties\<close>

text \<open>
  The language of a pattern, stated without reference to the order of search:
  \<open>rx_accepts r w caps\<close> holds when the whole word \<open>w\<close> matches \<open>r\<close> with the groups
  capturing \<open>caps\<close>. The matcher finds exactly these matches (\<open>rx_match_iff\<close> below).
\<close>

fun rx_accepts :: "regex \<Rightarrow> string \<Rightarrow> string list \<Rightarrow> bool" where
  "rx_accepts (Rep P lo hi) w caps =
     (caps = [] \<and> lo \<le> length w \<and> (case hi of None \<Rightarrow> True | Some h \<Rightarrow> length w \<le> h)
      \<and> list_all P w)"
| "rx_accepts (Alts ws) w caps = (caps = [] \<and> w \<in> set ws)"
| "rx_accepts (Opt r) w caps = (rx_accepts r w caps \<or> (w = [] \<and> caps = []))"
| "rx_accepts (Group r) w caps = (\<exists>inner. caps = w # inner \<and> rx_accepts r w inner)"
| "rx_accepts (Seq a b) w caps =
     (\<exists>w1 w2 c1 c2. w = w1 @ w2 \<and> caps = c1 @ c2 \<and> rx_accepts a w1 c1 \<and> rx_accepts b w2 c2)"
| "rx_accepts Eps w caps = (w = [] \<and> caps = [])"

text \<open>A string of between \<open>lo\<close> and \<open>hi\<close> ASCII digits; a non-empty string of white space.\<close>

definition digit_string :: "nat \<Rightarrow> nat \<Rightarrow> string \<Rightarrow> bool" where
  "digit_string lo hi w = (lo \<le> length w \<and> length w \<le> hi \<and> list_all is_digit w)"

definition space_string :: "string \<Rightarrow> bool" where
  "space_string w = (w \<noteq> [] \<and> list_all is_space w)"

text \<open>What the optional part \<^verbatim>\<open>(?:st|nd|rd|th)?\<close> can consume.\<close>

definition suffixes :: "string list" where
  "suffixes = ['''', ''st'', ''nd'', ''rd'', ''th'']"

text \<open>
  The shape \<^verbatim>\<open>\d{4}-\d{2}-\d{2}\<close> written out on the ten characters of the string, and
  the numbers in its three fields.
\<close>

definition canonical_shape :: "string \<Rightarrow> bool" where
  "canonical_shape s =
     (length s = 10 \<and> s ! 4 = CHR ''-'' \<and> s ! 7 = CHR ''-''
      \<and> list_all is_digit (take 4 s) \<and> list_all is_digit (take 2 (drop 5 s))
      \<and> list_all is_digit (drop 8 s))"

definition year_of :: "string \<Rightarrow> nat" where
  "year_of s = decimal (take 4 s)"

definition month_of :: "string \<Rightarrow> nat" where
  "month_of s = decimal (take 2 (drop 5 s))"

definition day_of :: "string \<Rightarrow> nat" where
  "day_of s = decimal (drop 8 s)"

text \<open>
  A string of that shape names a date the parser accepts when its month is in 1..12 and
  its day is between 1 and the last day the policy allows; \<open>midnight_utc\<close> is the instant
  at which that day starts in UTC, in milliseconds since 1970-01-01T00:00:00Z.
\<close>

definition last_day :: "date_policy \<Rightarrow> string \<Rightarrow> nat" where
  "last_day pol s =
     (case pol of Lenient \<Rightarrow> 31 | Strict \<Rightarrow> days_in_month (int (year_of s)) (month_of s))"

definition real_date :: "date_policy \<Rightarrow> string \<Rightarrow> bool" where
  "real_date pol s =
     (1 \<le> month_of s \<and> month_of s \<le> 12 \<and> 1 \<le> day_of s \<and> day_of s \<le> last_day pol s)"

definition midnight_utc :: "string \<Rightarrow> int" where
  "midnight_utc s = MakeDay (int (year_of s)) (month_of s) (day_of s) * msPerDay"

text \<open>
  The instant of a \<^verbatim>\<open>pastDate\<close> argument that passes the validation of \<open>getWeekOffset\<close>;
  \<open>None\<close> for an argument that fails it.
\<close>

definition parsed_instant :: "date_policy \<Rightarrow> js_value \<Rightarrow> int option" where
  "parsed_instant pol v =
     (case v of
        JSString raw \<Rightarrow>
          (if canonical_shape (trim raw) \<and> real_date pol (trim raw)
           then Some (midnight_utc (trim raw)) else None)
      | _ \<Rightarrow> None)"

text \<open>
  The arguments that fail validation: a value that is not a string, the empty string, a
  string that after trimming is not of the shape \<^verbatim>\<open>\d{4}-\d{2}-\d{2}\<close>, and a string of
  that shape that does not name a date the parser accepts.
\<close>

definition validation_fails :: "date_policy \<Rightarrow> js_value \<Rightarrow> bool" where
  "validation_fails pol v =
     (case v of
        JSString raw \<Rightarrow>
          raw = [] \<or> \<not> canonical_shape (trim raw) \<or> \<not> real_date pol (trim raw)
      | _ \<Rightarrow> True)"

text \<open>The ASCII lower-case letters, and the ASCII letters of either case.\<close>

definition is_lower :: "char \<Rightarrow> bool" where
  "is_lower c = (c \<in> set ''abcdefghijklmnopqrstuvwxyz'')"

definition is_letter :: "char \<Rightarrow> bool" where
  "is_letter c = (c \<in> set ''abcdefghijklmnopqrstuvwxyzABCDEFGHIJKLMNOPQRSTUVWXYZ'')"

text \<open>The usual abbreviations of the month names (May has none of its own).\<close>

definition month_abbreviations :: "string list" where
  "month_abbreviations =
     [''jan'', ''feb'', ''mar'', ''apr'', ''jun'', ''jul'', ''aug'', ''sep'', ''sept'', ''oct'',
      ''nov'', ''dec'']"

text \<open>
  The text that the month-name patterns are run on (\<^verbatim>\<open>lowered\<close> in the source), and the
  string that the month-name branches build from the three captured groups.
\<close>

definition lowered :: "string \<Rightarrow> string" where
  "lowered s = strip_commas (toLowerCase s)"

definition emitted :: "string \<Rightarrow> string \<Rightarrow> string \<Rightarrow> string" where
  "emitted mon d y = y @ ''-'' @ MONTHS_get mon @ ''-'' @ padStart 2 (CHR ''0'') d"

text \<open>
  A word is a non-empty string without white space. A text has the month-first layout with
  the word \<open>W\<close> in the place of the month when it is \<open>W\<close>, white space, a day \<open>d\<close> of one or
  two digits, an optional ordinal suffix, white space and a year \<open>y\<close> of four digits, and
  nothing else; the day-first layout has the day and its suffix before the word.
\<close>

definition is_word :: "string \<Rightarrow> bool" where
  "is_word W = (W \<noteq> [] \<and> list_all (\<lambda>c. \<not> is_space c) W)"

definition month_first_shape :: "string \<Rightarrow> string \<Rightarrow> string \<Rightarrow> string \<Rightarrow> bool" where
  "month_first_shape W d y L =
     (\<exists>ws suf ws'. L = W @ ws @ d @ suf @ ws' @ y \<and> space_string ws \<and> digit_string 1 2 d
        \<and> suf \<in> set suffixes \<and> space_string ws' \<and> digit_string 4 4 y)"

definition day_first_shape :: "string \<Rightarrow> string \<Rightarrow> string \<Rightarrow> string \<Rightarrow> bool" where
  "day_first_shape W d y L =
     (\<exists>suf ws ws'. L = d @ suf @ ws @ W @ ws' @ y \<and> digit_string 1 2 d
        \<and> suf \<in> set suffixes \<and> space_string ws \<and> space_string ws' \<and> digit_string 4 4 y)"

section \<open>The matcher finds the language of the pattern\<close>

lemma takeWhile_length_ge:
  "list_all P w \<Longrightarrow> length w \<le> length (takeWhile P (w @ rest))"
  by (induction w) auto

lemma take_all_of_takeWhile:
  "n \<le> length (takeWhile P s) \<Longrightarrow> list_all P (take n s)"
proof (induction s arbitrary: n)
  case Nil
  then show ?case by simp
next
  case (Cons a s)
  then show ?case by (cases n) (auto split: if_splits)
qed

lemma rx_match_Rep_iff:
  "(caps, rest) \<in> set (rx_match (Rep P lo hi) s) \<longleftrightarrow>
     (\<exists>w. s = w @ rest \<and> rx_accepts (Rep P lo hi) w caps)"
proof
  assume "(caps, rest) \<in> set (rx_match (Rep P lo hi) s)"
  then obtain n where n: "caps = []" "rest = drop n s" "lo \<le> n"
      "n \<le> length (takeWhile P s)" "case hi of None \<Rightarrow> True | Some h \<Rightarrow> n \<le> h"
    by (auto simp: Let_def split: option.splits)
  have len: "n \<le> length s"
    using n(4) length_takeWhile_le [of P s] by linarith
  have "s = take n s @ rest" using n(2) by simp
  moreover have "rx_accepts (Rep P lo hi) (take n s) caps"
    using n len take_all_of_takeWhile [of n P s] by (auto split: option.splits)
  ultimately show "\<exists>w. s = w @ rest \<and> rx_accepts (Rep P lo hi) w caps" by blast
next
  assume "\<exists>w. s = w @ rest \<and> rx_accepts (Rep P lo hi) w caps"
  then obtain w where w: "s = w @ rest" "caps = []" "lo \<le> length w"
      "case hi of None \<Rightarrow> True | Some h \<Rightarrow> length w \<le> h" "list_all P w"
    by auto
  have "length w \<le> length (takeWhile P s)"
    using w(1,5) takeWhile_length_ge by blast
  moreover have "rest = drop (length w) s" using w(1) by simp
  ultimately show "(caps, rest) \<in> set (rx_match (Rep P lo hi) s)"
    using w(2,3,4) by (auto simp: Let_def image_iff split: option.splits)
qed

lemma rx_match_Alts_iff:
  "(caps, rest) \<in> set (rx_match (Alts ws) s) \<longleftrightarrow>
     (\<exists>w. s = w @ rest \<and> rx_accepts (Alts ws) w caps)"
proof
  assume "(caps, rest) \<in> set (rx_match (Alts ws) s)"
  then obtain w where w: "w \<in> set ws" "take (length w) s = w" "caps = []"
      "rest = drop (length w) s"
    by auto
  have "s = w @ rest"
    using w(2,4) append_take_drop_id [of "length w" s] by simp
  then show "\<exists>w. s = w @ rest \<and> rx_accepts (Alts ws) w caps"
    using w(1,3) by auto
next
  assume "\<exists>w. s = w @ rest \<and> rx_accepts (Alts ws) w caps"
  then show "(caps, rest) \<in> set (rx_match (Alts ws) s)"
    by (auto simp: image_iff)
qed

lemma rx_match_iff:
  "(caps, rest) \<in> set (rx_match r s) \<longleftrightarrow> (\<exists>w. s = w @ rest \<and> rx_accepts r w caps)"
proof (induction r arbitrary: caps rest s)
  case (Rep P lo hi)
  show ?case by (rule rx_match_Rep_iff)
next
  case (Alts ws)
  show ?case by (rule rx_match_Alts_iff)
next
  case (Opt r)
  then show ?case by auto
next
  case (Group r)
  show ?case
  proof
    assume "(caps, rest) \<in> set (rx_match (Group r) s)"
    then obtain inner where i: "(inner, rest) \<in> set (rx_match r s)"
        "caps = take (length s - length rest) s # inner"
      by auto
    from i(1) Group obtain w where w: "s = w @ rest" "rx_accepts r w inner" by blast
    then show "\<exists>w. s = w @ rest \<and> rx_accepts (Group r) w caps"
      using i(2) by auto
  next
    assume "\<exists>w. s = w @ rest \<and> rx_accepts (Group r) w caps"
    then obtain w inner where w: "s = w @ rest" "caps = w # inner" "rx_accepts r w inner"
      by auto
    then have "(inner, rest) \<in> set (rx_match r s)" using Group by blast
    then show "(caps, rest) \<in> set (rx_match (Group r) s)"
      using w(1,2) by (force simp: image_iff)
  qed
next
  case (Seq a b)
  show ?case
  proof
    assume "(caps, rest) \<in> set (rx_match (Seq a b) s)"
    then obtain c1 r1 c2 where m: "(c1, r1) \<in> set (rx_match a s)"
        "(c2, rest) \<in> set (rx_match b r1)" "caps = c1 @ c2"
      by auto
    from m(1) Seq(1) obtain w1 where w1: "s = w1 @ r1" "rx_accepts a w1 c1" by blast
    from m(2) Seq(2) obtain w2 where w2: "r1 = w2 @ rest" "rx_accepts b w2 c2" by blast
    have "s = (w1 @ w2) @ rest" using w1(1) w2(1) by simp
    moreover have "rx_accepts (Seq a b) (w1 @ w2) caps"
      using w1(2) w2(2) m(3) by auto
    ultimately show "\<exists>w. s = w @ rest \<and> rx_accepts (Seq a b) w caps" by blast
  next
    assume "\<exists>w. s = w @ rest \<and> rx_accepts (Seq a b) w caps"
    then obtain w1 w2 c1 c2 where w: "s = (w1 @ w2) @ rest" "caps = c1 @ c2"
        "rx_accepts a w1 c1" "rx_accepts b w2 c2"
      by auto
    have "(c1, w2 @ rest) \<in> set (rx_match a s)" using w(1,3) Seq(1) by auto
    moreover have "(c2, rest) \<in> set (rx_match b (w2 @ rest))" using w(4) Seq(2) by auto
    ultimately show "(caps, rest) \<in> set (rx_match (Seq a b) s)"
      using w(2) by force
  qed
next
  case Eps
  show ?case by auto
qed

lemma regexp_match_SomeD: "regexp_match r s = Some caps \<Longrightarrow> rx_accepts r s caps"
proof -
  assume a: "regexp_match r s = Some caps"
  define full where "full = filter (\<lambda>(caps, rest). rest = []) (rx_match r s)"
  from a obtain rest more where "full = (caps, rest) # more"
    by (auto simp: regexp_match_def full_def split: list.splits)
  then have "(caps, rest) \<in> set full" by simp
  then have "(caps, []) \<in> set (rx_match r s)" by (auto simp: full_def)
  then show ?thesis using rx_match_iff [of caps "[]" r s] by simp
qed

lemma regexp_match_None_iff: "regexp_match r s = None \<longleftrightarrow> (\<forall>caps. \<not> rx_accepts r s caps)"
proof -
  have "regexp_match r s = None \<longleftrightarrow> filter (\<lambda>(caps, rest). rest = []) (rx_match r s) = []"
    by (auto simp: regexp_match_def split: list.splits)
  also have "\<dots> \<longleftrightarrow> (\<forall>caps. (caps, []) \<notin> set (rx_match r s))"
    by (auto simp: filter_empty_conv)
  also have "\<dots> \<longleftrightarrow> (\<forall>caps. \<not> rx_accepts r s caps)"
    using rx_match_iff [of _ "[]" r s] by simp
  finally show ?thesis .
qed

lemma regexp_match_eqI:
  assumes "rx_accepts r s caps" and "\<And>c. rx_accepts r s c \<Longrightarrow> c = caps"
  shows "regexp_match r s = Some caps"
proof (cases "regexp_match r s")
  case None
  then show ?thesis using assms(1) regexp_match_None_iff by blast
next
  case (Some c)
  then show ?thesis using assms(2) regexp_match_SomeD by blast
qed

lemma span_unique:
  assumes "u @ v = u' @ v'" "list_all P u" "list_all P u'"
    and "v = [] \<or> \<not> P (hd v)" "v' = [] \<or> \<not> P (hd v')"
  shows "u = u' \<and> v = v'"
proof -
  have a: "takeWhile P (u @ v) = u"
    using assms(2,4) by (cases v) (auto simp: list_all_iff takeWhile_tail)
  have b: "takeWhile P (u' @ v') = u'"
    using assms(3,5) by (cases v') (auto simp: list_all_iff takeWhile_tail)
  from a b assms(1) have "u = u'" by simp
  then show ?thesis using assms(1) by simp
qed

subsection \<open>The patterns of the source\<close>

lemma digits_accepts [simp]:
  "rx_accepts (digits lo hi) w caps \<longleftrightarrow> caps = [] \<and> digit_string lo hi w"
  by (auto simp: digits_def digit_string_def)

lemma spaces1_accepts [simp]:
  "rx_accepts spaces1 w caps \<longleftrightarrow> caps = [] \<and> space_string w"
  by (cases w) (auto simp: spaces1_def space_string_def)

lemma sep_accepts [simp]:
  "rx_accepts (Rep is_sep (Suc 0) (Some (Suc 0))) w caps \<longleftrightarrow> caps = [] \<and> (\<exists>c. w = [c] \<and> is_sep c)"
  by (cases w) auto

lemma Lit_accepts [simp]: "rx_accepts (Lit x) w caps \<longleftrightarrow> caps = [] \<and> w = x"
  by (auto simp: Lit_def)

lemma ordinal_suffix_accepts [simp]:
  "rx_accepts ordinal_suffix w caps \<longleftrightarrow> caps = [] \<and> w \<in> set suffixes"
  by (auto simp: ordinal_suffix_def suffixes_def)

lemma rx_accepts_SeqI:
  "rx_accepts a w1 c1 \<Longrightarrow> rx_accepts b w2 c2 \<Longrightarrow> rx_accepts (Seq a b) (w1 @ w2) (c1 @ c2)"
  by auto

lemma rx_accepts_GroupI: "rx_accepts r w [] \<Longrightarrow> rx_accepts (Group r) w [w]"
  by simp

lemma rx_accepts_EpsI: "rx_accepts Eps [] []"
  by simp

lemma rx_direct_accepts:
  "rx_accepts rx_direct s caps \<longleftrightarrow>
     (\<exists>y c1 m c2 d. s = y @ c1 # m @ c2 # d \<and> caps = [y, m, d]
        \<and> digit_string 4 4 y \<and> is_sep c1 \<and> digit_string 1 2 m \<and> is_sep c2 \<and> digit_string 1 2 d)"
  (is "?L \<longleftrightarrow> ?R")
proof
  assume ?L
  then show ?R
    unfolding rx_direct_def by (simp del: rx_accepts.simps(1)) (elim exE conjE, simp)
next
  assume ?R
  then obtain y c1 m c2 d where f: "s = y @ c1 # m @ c2 # d" "caps = [y, m, d]"
      "digit_string 4 4 y" "is_sep c1" "digit_string 1 2 m" "is_sep c2" "digit_string 1 2 d"
    by blast
  have "rx_accepts rx_direct (y @ [c1] @ m @ [c2] @ d @ []) ([y] @ [] @ [m] @ [] @ [d] @ [])"
    unfolding rx_direct_def cat.simps
    using f(3-7)
    by (intro rx_accepts_SeqI rx_accepts_GroupI rx_accepts_EpsI) (simp_all del: rx_accepts.simps(1))
  then show ?L using f(1,2) by simp
qed

lemma rx_month_first_accepts:
  "rx_accepts rx_month_first s caps \<longleftrightarrow>
     (\<exists>mon ws d suf ws' y. s = mon @ ws @ d @ suf @ ws' @ y \<and> caps = [mon, d, y]
        \<and> mon \<in> set month_names \<and> space_string ws \<and> digit_string 1 2 d
        \<and> suf \<in> set suffixes \<and> space_string ws' \<and> digit_string 4 4 y)"
  (is "?L \<longleftrightarrow> ?R")
proof
  assume ?L
  then show ?R
    unfolding rx_month_first_def
    by (simp del: rx_accepts.simps(1)) (elim exE conjE, simp, blast)
next
  assume ?R
  then obtain mon ws d suf ws' y where f: "s = mon @ ws @ d @ suf @ ws' @ y"
      "caps = [mon, d, y]" "mon \<in> set month_names" "space_string ws" "digit_string 1 2 d"
      "suf \<in> set suffixes" "space_string ws'" "digit_string 4 4 y"
    by blast
  have "rx_accepts rx_month_first (mon @ ws @ d @ suf @ ws' @ y @ [])
          ([mon] @ [] @ [d] @ [] @ [] @ [y] @ [])"
    unfolding rx_month_first_def cat.simps
    using f(3-8)
    by (intro rx_accepts_SeqI rx_accepts_GroupI rx_accepts_EpsI) (simp_all del: rx_accepts.simps(1))
  then show ?L using f(1,2) by simp
qed

lemma rx_day_first_accepts:
  "rx_accepts rx_day_first s caps \<longleftrightarrow>
     (\<exists>d suf ws mon ws' y. s = d @ suf @ ws @ mon @ ws' @ y \<and> caps = [d, mon, y]
        \<and> digit_string 1 2 d \<and> suf \<in> set suffixes \<and> space_string ws
        \<and> mon \<in> set month_names \<and> space_string ws' \<and> digit_string 4 4 y)"
  (is "?L \<longleftrightarrow> ?R")
proof
  assume ?L
  then show ?R
    unfolding rx_day_first_def
    by (simp del: rx_accepts.simps(1)) (elim exE conjE, simp, blast)
next
  assume ?R
  then obtain d suf ws mon ws' y where f: "s = d @ suf @ ws @ mon @ ws' @ y"
      "caps = [d, mon, y]" "digit_string 1 2 d" "suf \<in> set suffixes"
      "space_string ws" "mon \<in> set month_names" "space_string ws'" "digit_string 4 4 y"
    by blast
  have "rx_accepts rx_day_first (d @ suf @ ws @ mon @ ws' @ y @ [])
          ([d] @ [] @ [] @ [mon] @ [] @ [y] @ [])"
    unfolding rx_day_first_def cat.simps
    using f(3-8)
    by (intro rx_accepts_SeqI rx_accepts_GroupI rx_accepts_EpsI) (simp_all del: rx_accepts.simps(1))
  then show ?L using f(1,2) by simp
qed

lemma rx_iso_accepts:
  "rx_accepts rx_iso s caps \<longleftrightarrow>
     (\<exists>y m d. s = y @ ''-'' @ m @ ''-'' @ d \<and> caps = []
        \<and> digit_string 4 4 y \<and> digit_string 2 2 m \<and> digit_string 2 2 d)"
  (is "?L \<longleftrightarrow> ?R")
proof
  assume ?L
  then show ?R
    unfolding rx_iso_def
    by (simp del: rx_accepts.simps(1)) (elim exE conjE, simp, blast)
next
  assume ?R
  then obtain y m d where f: "s = y @ ''-'' @ m @ ''-'' @ d" "caps = []"
      "digit_string 4 4 y" "digit_string 2 2 m" "digit_string 2 2 d"
    by blast
  have "rx_accepts rx_iso (y @ ''-'' @ m @ ''-'' @ d @ []) ([] @ [] @ [] @ [] @ [] @ [])"
    unfolding rx_iso_def cat.simps
    using f(3-5)
    by (intro rx_accepts_SeqI rx_accepts_EpsI) (simp_all del: rx_accepts.simps(1))
  then show ?L using f(1,2) by simp
qed

lemma rx_date_time_accepts:
  "rx_accepts rx_date_time s caps \<longleftrightarrow>
     (\<exists>y m d. s = y @ ''-'' @ m @ ''-'' @ d @ ''T00:00:00Z'' \<and> caps = [y, m, d]
        \<and> digit_string 4 4 y \<and> digit_string 2 2 m \<and> digit_string 2 2 d)"
  (is "?L \<longleftrightarrow> ?R")
proof
  assume ?L
  then show ?R
    unfolding rx_date_time_def
    by (simp del: rx_accepts.simps(1)) (elim exE conjE, simp)
next
  assume ?R
  then obtain y m d where f: "s = y @ ''-'' @ m @ ''-'' @ d @ ''T00:00:00Z''" "caps = [y, m, d]"
      "digit_string 4 4 y" "digit_string 2 2 m" "digit_string 2 2 d"
    by blast
  have "rx_accepts rx_date_time (y @ ''-'' @ m @ ''-'' @ d @ ''T00:00:00Z'' @ [])
          ([y] @ [] @ [m] @ [] @ [d] @ [] @ [])"
    unfolding rx_date_time_def cat.simps
    using f(3-5)
    by (intro rx_accepts_SeqI rx_accepts_GroupI rx_accepts_EpsI) (simp_all del: rx_accepts.simps(1))
  then show ?L using f(1,2) by simp
qed

section \<open>Validation and parsing in getWeekOffset\<close>

lemma canonical_shape_split:
  assumes "canonical_shape s"
  shows "s = take 4 s @ ''-'' @ take 2 (drop 5 s) @ ''-'' @ drop 8 s"
    and "digit_string 4 4 (take 4 s)" and "digit_string 2 2 (take 2 (drop 5 s))"
    and "digit_string 2 2 (drop 8 s)"
proof -
  from assms have len: "length s = 10" by (simp add: canonical_shape_def)
  then obtain a0 a1 a2 a3 a4 a5 a6 a7 a8 a9 where s: "s = [a0, a1, a2, a3, a4, a5, a6, a7, a8, a9]"
    by (auto simp: numeral_eq_Suc length_Suc_conv)
  from assms show "s = take 4 s @ ''-'' @ take 2 (drop 5 s) @ ''-'' @ drop 8 s"
    unfolding s by (simp add: canonical_shape_def)
  from assms show "digit_string 4 4 (take 4 s)" "digit_string 2 2 (take 2 (drop 5 s))"
    "digit_string 2 2 (drop 8 s)"
    unfolding s by (simp_all add: canonical_shape_def digit_string_def)
qed

lemma digit_string_4:
  "digit_string 4 4 y \<longleftrightarrow> (\<exists>a b c d. y = [a, b, c, d] \<and> is_digit a \<and> is_digit b \<and> is_digit c \<and> is_digit d)"
  by (auto simp: digit_string_def numeral_eq_Suc length_Suc_conv le_Suc_eq)

lemma digit_string_2:
  "digit_string 2 2 m \<longleftrightarrow> (\<exists>a b. m = [a, b] \<and> is_digit a \<and> is_digit b)"
  by (auto simp: digit_string_def numeral_eq_Suc length_Suc_conv le_Suc_eq)

lemma canonical_shapeI:
  assumes "digit_string 4 4 y" "digit_string 2 2 m" "digit_string 2 2 d"
  shows "canonical_shape (y @ ''-'' @ m @ ''-'' @ d)"
    and "take 4 (y @ ''-'' @ m @ ''-'' @ d) = y"
    and "take 2 (drop 5 (y @ ''-'' @ m @ ''-'' @ d)) = m"
    and "drop 8 (y @ ''-'' @ m @ ''-'' @ d) = d"
  using assms unfolding digit_string_4 digit_string_2
  by (auto simp: canonical_shape_def)

lemma rx_iso_test: "regexp_test rx_iso s \<longleftrightarrow> canonical_shape s"
proof
  assume "regexp_test rx_iso s"
  then obtain caps where "regexp_match rx_iso s = Some caps"
    by (auto simp: regexp_test_def)
  then have "rx_accepts rx_iso s caps" by (rule regexp_match_SomeD)
  then show "canonical_shape s"
    using canonical_shapeI(1) by (auto simp: rx_iso_accepts)
next
  assume c: "canonical_shape s"
  have "rx_accepts rx_iso s []"
    unfolding rx_iso_accepts using canonical_shape_split [OF c] by blast
  then show "regexp_test rx_iso s"
    by (auto simp: regexp_test_def regexp_match_None_iff)
qed

lemma digit_val_le: "is_digit c \<Longrightarrow> digit_val c \<le> 9"
  by (auto simp: is_digit_def digit_val_def)

lemma decimal_year_le:
  assumes "digit_string 4 4 y"
  shows "decimal y \<le> 9999"
proof -
  from assms have "length y = 4" by (simp add: digit_string_def)
  then obtain a b c d where y: "y = [a, b, c, d]"
    by (auto simp: numeral_eq_Suc length_Suc_conv)
  from assms have "digit_val a \<le> 9" "digit_val b \<le> 9" "digit_val c \<le> 9" "digit_val d \<le> 9"
    unfolding y by (simp_all add: digit_string_def digit_val_le)
  then show ?thesis unfolding y by (simp add: decimal_def)
qed

lemma days_before_month_bounds:
  "1 \<le> m \<Longrightarrow> m \<le> 12 \<Longrightarrow> 0 \<le> days_before_month y m \<and> days_before_month y m \<le> 335"
proof -
  assume "1 \<le> m" "m \<le> 12"
  then have "m = 1 \<or> m = 2 \<or> m = 3 \<or> m = 4 \<or> m = 5 \<or> m = 6 \<or> m = 7 \<or> m = 8
      \<or> m = 9 \<or> m = 10 \<or> m = 11 \<or> m = 12"
    by arith
  then show ?thesis
    by (auto simp: days_before_month_def)
qed

lemma MakeDay_bounds:
  assumes "y \<le> 9999" "1 \<le> m" "m \<le> 12" "1 \<le> d" "d \<le> 31"
  shows "\<bar>MakeDay (int y) m d * msPerDay\<bar> \<le> 8640000000000000"
proof -
  have y: "0 \<le> int y" "int y \<le> 9999" using assms(1) by simp_all
  define q4 q100 q400 where "q4 = (int y - 1969) div 4" and "q100 = (int y - 1901) div 100"
    and "q400 = (int y - 1601) div 400"
  have d4: "- 493 \<le> q4" "q4 \<le> 2007"
    using zdiv_mono1 [of "- 1969" "int y - 1969" 4] zdiv_mono1 [of "int y - 1969" 8030 4] y
    by (simp_all add: q4_def)
  have d100: "- 20 \<le> q100" "q100 \<le> 80"
    using zdiv_mono1 [of "- 1901" "int y - 1901" 100] zdiv_mono1 [of "int y - 1901" 8098 100] y
    by (simp_all add: q100_def)
  have d400: "- 5 \<le> q400" "q400 \<le> 20"
    using zdiv_mono1 [of "- 1601" "int y - 1601" 400] zdiv_mono1 [of "int y - 1601" 8398 400] y
    by (simp_all add: q400_def)
  have "DayFromYear (int y) = 365 * (int y - 1970) + q4 - q100 + q400"
    by (simp add: DayFromYear_def q4_def q100_def q400_def)
  then have "- 800000 \<le> DayFromYear (int y) \<and> DayFromYear (int y) \<le> 3000000"
    using y d4 d100 d400 by simp
  moreover note days_before_month_bounds [OF assms(2,3), of "int y"]
  ultimately have "- 800000 \<le> MakeDay (int y) m d \<and> MakeDay (int y) m d \<le> 3000400"
    using assms(4,5) by (simp add: MakeDay_def)
  then show ?thesis by (simp add: msPerDay_def abs_le_iff)
qed

lemma Date_parse_canonical:
  assumes c: "canonical_shape s"
  shows "Date_parse pol (s @ ''T00:00:00Z'') =
           (if real_date pol s then Some (midnight_utc s) else None)"
proof -
  define y m d where "y = take 4 s" and "m = take 2 (drop 5 s)" and "d = drop 8 s"
  note sp = canonical_shape_split [OF c, folded y_def m_def d_def]
  have acc: "rx_accepts rx_date_time (s @ ''T00:00:00Z'') [y, m, d]"
    unfolding rx_date_time_accepts using sp by (intro exI [of _ y] exI [of _ m] exI [of _ d]) simp
  have uniq: "caps = [y, m, d]" if "rx_accepts rx_date_time (s @ ''T00:00:00Z'') caps" for caps
  proof -
    from that obtain y' m' d' where f: "s @ ''T00:00:00Z'' = y' @ ''-'' @ m' @ ''-'' @ d' @ ''T00:00:00Z''"
        "caps = [y', m', d']" "digit_string 4 4 y'" "digit_string 2 2 m'" "digit_string 2 2 d'"
      unfolding rx_date_time_accepts by blast
    have "y @ ''-'' @ m @ ''-'' @ d @ ''T00:00:00Z'' = y' @ ''-'' @ m' @ ''-'' @ d' @ ''T00:00:00Z''"
      using f(1) sp(1) by simp
    moreover have "length y = length y'" "length m = length m'" "length d = length d'"
      using sp(2-4) f(3-5) by (simp_all add: digit_string_def)
    ultimately show ?thesis using f(2) by simp
  qed
  have rm: "regexp_match rx_date_time (s @ ''T00:00:00Z'') = Some [y, m, d]"
    using acc uniq by (rule regexp_match_eqI)
  show ?thesis
  proof (cases "real_date pol s")
    case True
    then have r: "1 \<le> decimal m" "decimal m \<le> 12" "1 \<le> decimal d"
        "decimal d \<le> last_day pol s"
      by (simp_all add: real_date_def month_of_def day_of_def m_def d_def)
    have "last_day pol s \<le> 31"
      by (cases pol) (simp_all add: last_day_def days_in_month_def)
    with r(4) have d31: "decimal d \<le> 31" by simp
    have "\<bar>MakeDay (int (decimal y)) (decimal m) (decimal d) * msPerDay\<bar> \<le> 8640000000000000"
      using decimal_year_le [OF sp(2)] r(1-3) d31 by (rule MakeDay_bounds)
    then show ?thesis
      using True r
      by (cases pol)
         (simp_all add: Date_parse_def rm Let_def midnight_utc_def year_of_def month_of_def
            day_of_def last_day_def y_def m_def d_def not_less [symmetric])
  next
    case False
    then show ?thesis
      by (cases pol)
         (auto simp: Date_parse_def rm Let_def real_date_def year_of_def month_of_def
            day_of_def last_day_def y_def m_def d_def)
  qed
qed

lemma getWeekOffset_eq:
  "getWeekOffset pol v now =
     Inr (case parsed_instant pol v of
            None \<Rightarrow> 0
          | Some t \<Rightarrow> if now < t then 1 else (now - t) div 604800000 + 1)"
proof (cases v)
  case (JSString raw)
  show ?thesis
  proof (cases "raw = []")
    case True
    then show ?thesis
      by (simp add: JSString getWeekOffset_def parsed_instant_def trim_def canonical_shape_def)
  next
    case False
    show ?thesis
    proof (cases "canonical_shape (trim raw)")
      case c: True
      show ?thesis
      proof (cases "real_date pol (trim raw)")
        case True
        have "0 \<le> \<bar>now - midnight_utc (trim raw)\<bar> div 604800000"
          by (simp add: pos_imp_zdiv_nonneg_iff)
        moreover have "now < midnight_utc (trim raw) \<or> \<bar>now - midnight_utc (trim raw)\<bar> = now - midnight_utc (trim raw)"
          by linarith
        ultimately show ?thesis
          using False c True
          by (auto simp: JSString getWeekOffset_def parsed_instant_def rx_iso_test
                Date_parse_canonical Let_def)
      next
        case False
        then show ?thesis
          using \<open>raw \<noteq> []\<close> c
          by (simp add: JSString getWeekOffset_def parsed_instant_def rx_iso_test
                Date_parse_canonical)
      qed
    next
      case False
      then show ?thesis
        using \<open>raw \<noteq> []\<close>
        by (simp add: JSString getWeekOffset_def parsed_instant_def rx_iso_test)
    qed
  qed
qed (simp_all add: getWeekOffset_def parsed_instant_def)

section \<open>Properties of getWeekOffset\<close>

lemma parsed_instant_None_iff: "parsed_instant pol v = None \<longleftrightarrow> validation_fails pol v"
  by (cases v) (auto simp: parsed_instant_def validation_fails_def trim_def canonical_shape_def)

text \<open>
  C1, as stated, fails: on a string of the wrong shape, on the empty string and on
  \<^verbatim>\<open>null\<close> the early returns of \<open>getWeekOffset\<close> give \<open>0\<close>, which is below \<open>1\<close>.
\<close>

theorem getWeekOffset_below_one_counterexample:
  "getWeekOffset Lenient (JSString ''not-a-date'') 1749981600000 = Inr 0
   \<and> getWeekOffset Strict (JSString '''') 1749981600000 = Inr 0
   \<and> getWeekOffset Lenient JSNull 1749981600000 = Inr 0"
  by code_simp

text \<open>
  C1, amended. For every argument, every instant \<open>now\<close> and either parsing policy,
  \<open>getWeekOffset\<close> returns an integer: exactly \<open>0\<close> when the argument fails validation,
  and an integer greater than or equal to \<open>1\<close> when it passes.
\<close>

theorem getWeekOffset_floor:
  "(validation_fails pol v \<longrightarrow> getWeekOffset pol v now = Inr 0)
   \<and> (\<not> validation_fails pol v \<longrightarrow> (\<exists>n. getWeekOffset pol v now = Inr n \<and> 1 \<le> n))"
proof (cases "parsed_instant pol v")
  case None
  then show ?thesis
    using parsed_instant_None_iff [of pol v] by (simp add: getWeekOffset_eq)
next
  case (Some t)
  have "0 \<le> (now - t) div 604800000" if "\<not> now < t"
    using that by (simp add: pos_imp_zdiv_nonneg_iff)
  then show ?thesis
    using Some parsed_instant_None_iff [of pol v] by (auto simp: getWeekOffset_eq)
qed

text \<open>Both cases occur: a month outside 01..12, and a valid date.\<close>

theorem getWeekOffset_floor_witness:
  "validation_fails Lenient (JSString ''2025-13-01'')
   \<and> getWeekOffset Lenient (JSString ''2025-13-01'') 1749981600000 = Inr 0
   \<and> \<not> validation_fails Lenient (JSString ''2025-06-01'')
   \<and> (\<exists>n. getWeekOffset Lenient (JSString ''2025-06-01'') 1749981600000 = Inr n \<and> 1 \<le> n)"
proof -
  have a: "validation_fails Lenient (JSString ''2025-13-01'')" by code_simp
  have b: "\<not> validation_fails Lenient (JSString ''2025-06-01'')" by code_simp
  show ?thesis
    using a b getWeekOffset_floor [of Lenient "JSString ''2025-13-01''" 1749981600000]
      getWeekOffset_floor [of Lenient "JSString ''2025-06-01''" 1749981600000]
    by blast
qed

text \<open>
  C4, as stated, fails. Its example \<^verbatim>\<open>2025-02-30\<close> has the shape \<^verbatim>\<open>\d{4}-\d{2}-\d{2}\<close> and
  names no calendar date, yet on V8, the engine of Node on which the server runs, the date
  parser accepts it as the second of March and \<open>getWeekOffset\<close> returns 16, not the
  fallback. And a string that has the shape only once the white space around it is
  trimmed, and so does not match the pattern as it stands, is accepted too.
\<close>

theorem getWeekOffset_fallback_counterexample:
  "canonical_shape ''2025-02-30''
   \<and> days_in_month 2025 2 = 28
   \<and> getWeekOffset Lenient (JSString ''2025-02-30'') 1749981600000 = Inr 16
   \<and> \<not> regexp_test rx_iso '' 2025-06-01 ''
   \<and> getWeekOffset Lenient (JSString '' 2025-06-01 '') 1749981600000 = Inr 3"
  by code_simp

lemma real_date_Lenient:
  "real_date Lenient s \<longleftrightarrow>
     1 \<le> month_of s \<and> month_of s \<le> 12 \<and> 1 \<le> day_of s \<and> day_of s \<le> 31"
  by (simp add: real_date_def last_day_def)

text \<open>
  C4, amended. \<open>getWeekOffset\<close> returns the fallback \<open>0\<close>, for every instant \<open>now\<close>, on
  every argument that fails its validation, and only on those: a value that is not a
  string, the empty string, a string that is not of the shape \<^verbatim>\<open>\d{4}-\d{2}-\d{2}\<close> once
  the white space around it is trimmed, and a string of that shape that the date parser of
  the engine rejects. On V8 the parser rejects exactly the strings whose month is outside
  01..12 or whose day is outside 01..31; a day up to 31 that the month does not have, as in
  \<^verbatim>\<open>2025-02-30\<close>, is not a validation failure.
\<close>

theorem getWeekOffset_validation_failure:
  "(validation_fails pol v \<longrightarrow> getWeekOffset pol v now = Inr 0)
   \<and> (getWeekOffset pol v now = Inr 0 \<longrightarrow> validation_fails pol v)
   \<and> (validation_fails Lenient v \<longleftrightarrow>
        (case v of
           JSString raw \<Rightarrow>
             \<not> canonical_shape (trim raw)
             \<or> month_of (trim raw) < 1 \<or> 12 < month_of (trim raw)
             \<or> day_of (trim raw) < 1 \<or> 31 < day_of (trim raw)
         | _ \<Rightarrow> True))"
proof (intro conjI impI)
  assume "validation_fails pol v"
  then show "getWeekOffset pol v now = Inr 0"
    using parsed_instant_None_iff [of pol v] by (simp add: getWeekOffset_eq)
next
  assume z: "getWeekOffset pol v now = Inr 0"
  show "validation_fails pol v"
  proof (cases "parsed_instant pol v")
    case None
    then show ?thesis by (simp add: parsed_instant_None_iff)
  next
    case (Some t)
    have "0 \<le> (now - t) div 604800000" if "\<not> now < t"
      using that by (simp add: pos_imp_zdiv_nonneg_iff)
    then have "getWeekOffset pol v now \<noteq> Inr 0"
      using Some by (auto simp: getWeekOffset_eq)
    then show ?thesis using z by simp
  qed
next
  show "validation_fails Lenient v \<longleftrightarrow>
        (case v of
           JSString raw \<Rightarrow>
             \<not> canonical_shape (trim raw)
             \<or> month_of (trim raw) < 1 \<or> 12 < month_of (trim raw)
             \<or> day_of (trim raw) < 1 \<or> 31 < day_of (trim raw)
         | _ \<Rightarrow> True)"
    by (cases v)
       (auto simp: validation_fails_def real_date_Lenient trim_def canonical_shape_def)
qed

text \<open>
  The empty string, a number, a date with slashes, a month outside 01..12 and a day
  outside 01..31 fail validation and give 0; the thirtieth of February passes on V8 and
  does not give 0.
\<close>

theorem getWeekOffset_validation_failure_witness:
  "validation_fails Lenient (JSString '''')
   \<and> getWeekOffset Lenient (JSString '''') 1749981600000 = Inr 0
   \<and> validation_fails Lenient (JSNumber 20250601)
   \<and> getWeekOffset Lenient (JSNumber 20250601) 1749981600000 = Inr 0
   \<and> validation_fails Lenient (JSString ''2025/06/01'')
   \<and> getWeekOffset Lenient (JSString ''2025/06/01'') 1749981600000 = Inr 0
   \<and> validation_fails Lenient (JSString ''2025-13-01'')
   \<and> getWeekOffset Lenient (JSString ''2025-13-01'') 1749981600000 = Inr 0
   \<and> validation_fails Lenient (JSString ''2025-02-32'')
   \<and> getWeekOffset Lenient (JSString ''2025-02-32'') 1749981600000 = Inr 0
   \<and> \<not> validation_fails Lenient (JSString ''2025-02-30'')
   \<and> getWeekOffset Lenient (JSString ''2025-02-30'') 1749981600000 \<noteq> Inr 0"
proof -
  have a: "validation_fails Lenient (JSString '''')" by code_simp
  have b: "validation_fails Lenient (JSNumber 20250601)" by code_simp
  have c: "validation_fails Lenient (JSString ''2025/06/01'')" by code_simp
  have d: "validation_fails Lenient (JSString ''2025-13-01'')" by code_simp
  have e: "validation_fails Lenient (JSString ''2025-02-32'')" by code_simp
  have f: "\<not> validation_fails Lenient (JSString ''2025-02-30'')" by code_simp
  show ?thesis
    using a b c d e f
      getWeekOffset_validation_failure [of Lenient "JSString ''''" 1749981600000]
      getWeekOffset_validation_failure [of Lenient "JSNumber 20250601" 1749981600000]
      getWeekOffset_validation_failure [of Lenient "JSString ''2025/06/01''" 1749981600000]
      getWeekOffset_validation_failure [of Lenient "JSString ''2025-13-01''" 1749981600000]
      getWeekOffset_validation_failure [of Lenient "JSString ''2025-02-32''" 1749981600000]
      getWeekOffset_validation_failure [of Lenient "JSString ''2025-02-30''" 1749981600000]
    by blast
qed

text \<open>
  C5. For every valid \<open>pastDate\<close> whose instant of midnight UTC is strictly later than
  \<open>now\<close>, \<open>getWeekOffset\<close> returns exactly \<open>1\<close>, however far in the future the date lies.
\<close>

theorem getWeekOffset_future:
  "parsed_instant pol v = Some t \<Longrightarrow> now < t \<Longrightarrow> getWeekOffset pol v now = Inr 1"
  by (simp add: getWeekOffset_eq)

text \<open>The next day, and the last day of the year 9999.\<close>

theorem getWeekOffset_future_witness:
  "parsed_instant Lenient (JSString ''2025-06-16'') = Some 1750032000000
   \<and> (1749981600000 :: int) < 1750032000000
   \<and> getWeekOffset Lenient (JSString ''2025-06-16'') 1749981600000 = Inr 1
   \<and> parsed_instant Strict (JSString ''9999-12-31'') = Some 253402214400000
   \<and> (1749981600000 :: int) < 253402214400000
   \<and> getWeekOffset Strict (JSString ''9999-12-31'') 1749981600000 = Inr 1"
proof -
  have a: "parsed_instant Lenient (JSString ''2025-06-16'') = Some 1750032000000" by code_simp
  have b: "parsed_instant Strict (JSString ''9999-12-31'') = Some 253402214400000" by code_simp
  have c: "(1749981600000 :: int) < 1750032000000" by simp
  have d: "(1749981600000 :: int) < 253402214400000" by simp
  show ?thesis
    using a b c d getWeekOffset_future [OF a c] getWeekOffset_future [OF b d] by blast
qed

lemma week_quotient:
  fixes e :: int
  assumes "int k * 86400000 \<le> e" "e < (int k + 1) * 86400000"
  shows "e div 604800000 = int (k div 7)"
proof -
  have "e = 86400000 * int k + (e - 86400000 * int k)" by simp
  moreover have "0 \<le> e - 86400000 * int k" "e - 86400000 * int k < 86400000"
    using assms by (simp_all add: algebra_simps)
  ultimately have "e div 86400000 = int k"
    by (rule int_div_pos_eq)
  moreover have "e div (86400000 * 7) = (e div 86400000) div 7"
    by (rule zdiv_zmult2_eq) simp
  ultimately show ?thesis by (simp add: zdiv_int)
qed

text \<open>
  C6. For a valid \<open>pastDate\<close> with instant \<open>t\<close> of midnight UTC and an instant \<open>now\<close> on the
  \<open>k\<close>-th UTC calendar day after it, the result is the floor of the elapsed milliseconds
  over the milliseconds of a week, plus one, which is \<open>k div 7 + 1\<close>: 1 on the same day,
  2 after 7 and after 13 days, 3 after 14 days.
\<close>

theorem getWeekOffset_weeks:
  assumes "parsed_instant pol v = Some t"
    and "t + int k * msPerDay \<le> now" and "now < t + (int k + 1) * msPerDay"
  shows "getWeekOffset pol v now = Inr ((now - t) div (7 * 24 * 60 * 60 * 1000) + 1)
         \<and> getWeekOffset pol v now = Inr (int (k div 7) + 1)"
proof -
  have "int k * 86400000 \<le> now - t" "now - t < (int k + 1) * 86400000"
    using assms(2,3) by (simp_all add: msPerDay_def)
  then have q: "(now - t) div 604800000 = int (k div 7)" by (rule week_quotient)
  have "0 \<le> int k * msPerDay" by (simp add: msPerDay_def)
  then have "\<not> now < t" using assms(2) by linarith
  then show ?thesis using assms(1) q by (simp add: getWeekOffset_eq)
qed

text \<open>With \<open>now\<close> fixed at 2025-06-15T10:00:00Z: the same day, 7, 13 and 14 days earlier.\<close>

theorem getWeekOffset_weeks_witness:
  "getWeekOffset Lenient (JSString ''2025-06-15'') 1749981600000 = Inr 1
   \<and> getWeekOffset Lenient (JSString ''2025-06-08'') 1749981600000 = Inr 2
   \<and> getWeekOffset Lenient (JSString ''2025-06-02'') 1749981600000 = Inr 2
   \<and> getWeekOffset Lenient (JSString ''2025-06-01'') 1749981600000 = Inr 3
   \<and> parsed_instant Lenient (JSString ''2025-06-15'') = Some 1749945600000
   \<and> parsed_instant Lenient (JSString ''2025-06-08'') = Some (1749945600000 - 7 * msPerDay)
   \<and> parsed_instant Lenient (JSString ''2025-06-02'') = Some (1749945600000 - 13 * msPerDay)
   \<and> parsed_instant Lenient (JSString ''2025-06-01'') = Some (1749945600000 - 14 * msPerDay)"
proof -
  have p0: "parsed_instant Lenient (JSString ''2025-06-15'') = Some 1749945600000" by code_simp
  have p7: "parsed_instant Lenient (JSString ''2025-06-08'') = Some 1749340800000" by code_simp
  have p13: "parsed_instant Lenient (JSString ''2025-06-02'') = Some 1748822400000" by code_simp
  have p14: "parsed_instant Lenient (JSString ''2025-06-01'') = Some 1748736000000" by code_simp
  have r0: "1749945600000 + int 0 * msPerDay \<le> 1749981600000"
      "1749981600000 < 1749945600000 + (int 0 + 1) * msPerDay"
    by (simp_all add: msPerDay_def)
  have r7: "1749340800000 + int 7 * msPerDay \<le> 1749981600000"
      "1749981600000 < 1749340800000 + (int 7 + 1) * msPerDay"
    by (simp_all add: msPerDay_def)
  have r13: "1748822400000 + int 13 * msPerDay \<le> 1749981600000"
      "1749981600000 < 1748822400000 + (int 13 + 1) * msPerDay"
    by (simp_all add: msPerDay_def)
  have r14: "1748736000000 + int 14 * msPerDay \<le> 1749981600000"
      "1749981600000 < 1748736000000 + (int 14 + 1) * msPerDay"
    by (simp_all add: msPerDay_def)
  show ?thesis
    using getWeekOffset_weeks [OF p0 r0] getWeekOffset_weeks [OF p7 r7]
      getWeekOffset_weeks [OF p13 r13] getWeekOffset_weeks [OF p14 r14] p0 p7 p13 p14
    by (simp add: msPerDay_def)
qed

section \<open>The results of normaliseDate\<close>

lemma digit_string_1_2:
  "digit_string 1 2 d \<longleftrightarrow>
     (\<exists>a. d = [a] \<and> is_digit a) \<or> (\<exists>a b. d = [a, b] \<and> is_digit a \<and> is_digit b)"
  by (auto simp: digit_string_def numeral_eq_Suc length_Suc_conv le_Suc_eq)

lemma padStart_digit_string:
  "digit_string 1 2 d \<Longrightarrow> digit_string 2 2 (padStart 2 (CHR ''0'') d)"
  unfolding digit_string_1_2 digit_string_2
  by (auto simp: padStart_def is_digit_def)

lemma MONTHS_get_digit_string:
  "mon \<in> set month_names \<Longrightarrow> digit_string 2 2 (MONTHS_get mon)"
  unfolding digit_string_2
  by (auto simp: month_names_def MONTHS_get_def MONTHS_def is_digit_def)

lemma month_name_branches_shape:
  "\<exists>r. month_name_branches s = Inr r \<and> (r = [] \<or> canonical_shape r)"
proof (cases "regexp_match rx_month_first (strip_commas (toLowerCase s))")
  case (Some m1)
  then have "rx_accepts rx_month_first (strip_commas (toLowerCase s)) m1"
    by (rule regexp_match_SomeD)
  then obtain mon d y where f: "m1 = [mon, d, y]" "mon \<in> set month_names"
      "digit_string 1 2 d" "digit_string 4 4 y"
    unfolding rx_month_first_accepts by blast
  have "canonical_shape (y @ ''-'' @ MONTHS_get mon @ ''-'' @ padStart 2 (CHR ''0'') d)"
    using f(4) MONTHS_get_digit_string [OF f(2)] padStart_digit_string [OF f(3)]
    by (rule canonical_shapeI(1))
  then show ?thesis
    using Some f(1) by (simp add: month_name_branches_def)
next
  case None
  show ?thesis
  proof (cases "regexp_match rx_day_first (strip_commas (toLowerCase s))")
    case (Some m2)
    then have "rx_accepts rx_day_first (strip_commas (toLowerCase s)) m2"
      by (rule regexp_match_SomeD)
    then obtain mon d y where f: "m2 = [d, mon, y]" "mon \<in> set month_names"
        "digit_string 1 2 d" "digit_string 4 4 y"
      unfolding rx_day_first_accepts by blast
    have "canonical_shape (y @ ''-'' @ MONTHS_get mon @ ''-'' @ padStart 2 (CHR ''0'') d)"
      using f(4) MONTHS_get_digit_string [OF f(2)] padStart_digit_string [OF f(3)]
      by (rule canonical_shapeI(1))
    then show ?thesis
      using None Some f(1) by (simp add: month_name_branches_def)
  next
    case n2: None
    then show ?thesis
      using None by (simp add: month_name_branches_def)
  qed
qed

lemma normaliseDate_trimmed_shape:
  assumes "truthy v" and "call_trim v = Inr (JSString s)"
  shows "\<exists>r. normaliseDate v = Inr r \<and> (r = [] \<or> canonical_shape r)"
proof (cases "regexp_match rx_direct s")
  case None
  then show ?thesis
    using assms month_name_branches_shape [of s]
    by (simp add: normaliseDate_def)
next
  case (Some direct)
  then have "rx_accepts rx_direct s direct"
    by (rule regexp_match_SomeD)
  then obtain y m d where f: "direct = [y, m, d]" "digit_string 4 4 y"
      "digit_string 1 2 m" "digit_string 1 2 d"
    unfolding rx_direct_accepts by blast
  have "canonical_shape (y @ ''-'' @ padStart 2 (CHR ''0'') m @ ''-'' @ padStart 2 (CHR ''0'') d)"
    using f(2) padStart_digit_string [OF f(3)] padStart_digit_string [OF f(4)]
    by (rule canonical_shapeI(1))
  then show ?thesis
    using assms Some f(1) month_name_branches_shape [of s]
    by (auto simp: normaliseDate_def Let_def)
qed

lemma normaliseDate_string_shape:
  "\<exists>r. normaliseDate (JSString raw) = Inr r \<and> (r = [] \<or> canonical_shape r)"
proof (cases "raw = []")
  case True
  then show ?thesis by (simp add: normaliseDate_def)
next
  case False
  then show ?thesis
    by (intro normaliseDate_trimmed_shape [where s = "trim raw"]) simp_all
qed

text \<open>
  C8. For every input string, \<open>normaliseDate\<close> returns either the empty string or a string
  of the shape \<^verbatim>\<open>\d{4}-\d{2}-\d{2}\<close>, that is, one that the pattern
  \<^verbatim>\<open>/^\d{4}-\d{2}-\d{2}$/\<close> of \<open>getWeekOffset\<close> accepts.
\<close>

theorem normaliseDate_result_shape:
  "\<exists>r. normaliseDate (JSString raw) = Inr r
        \<and> (r = [] \<or> (canonical_shape r \<and> regexp_test rx_iso r))"
  using normaliseDate_string_shape [of raw] by (auto simp: rx_iso_test)

text \<open>A recognised date and an unrecognised phrase.\<close>

theorem normaliseDate_result_shape_witness:
  "normaliseDate (JSString ''June 1st, 2025'') = Inr ''2025-06-01''
   \<and> canonical_shape ''2025-06-01'' \<and> regexp_test rx_iso ''2025-06-01''
   \<and> normaliseDate (JSString ''next friday'') = Inr ''''"
proof -
  have a: "normaliseDate (JSString ''June 1st, 2025'') = Inr ''2025-06-01''" by code_simp
  have b: "normaliseDate (JSString ''next friday'') = Inr ''''" by code_simp
  show ?thesis
    using a b normaliseDate_result_shape [of "''June 1st, 2025''"] by auto
qed

text \<open>
  C2, as stated, fails: \<open>normaliseDate\<close> tests only \<^verbatim>\<open>!raw\<close> before it calls
  \<^verbatim>\<open>raw.trim()\<close>, so on a number other than zero, on \<^verbatim>\<open>true\<close> and on an object without
  a \<^verbatim>\<open>trim\<close> method it raises a \<^verbatim>\<open>TypeError\<close>.
\<close>

theorem normaliseDate_raises_counterexample:
  "normaliseDate (JSNumber 42) = Inl TypeError
   \<and> normaliseDate (JSBoolean True) = Inl TypeError
   \<and> normaliseDate JSObject = Inl TypeError"
  by code_simp

text \<open>
  C2, amended. \<open>getWeekOffset\<close> returns an integer for every value. \<open>normaliseDate\<close>
  returns a string for every string, the empty one included, for every falsy value
  (\<^verbatim>\<open>undefined\<close>, \<^verbatim>\<open>null\<close>, \<^verbatim>\<open>false\<close>, \<^verbatim>\<open>0\<close>, \<^verbatim>\<open>NaN\<close>), and for every other value
  on which the call \<^verbatim>\<open>raw.trim()\<close> returns a string, such as a \<^verbatim>\<open>String\<close> wrapper object.
  Nothing is promised on the remaining truthy values, which its parameter type
  \<^verbatim>\<open>string\<close> excludes.
\<close>

theorem never_raises_on_strings:
  "(\<exists>n. getWeekOffset pol v now = Inr n)
   \<and> ((\<exists>raw. v = JSString raw) \<or> \<not> truthy v \<or> (\<exists>s. call_trim v = Inr (JSString s))
        \<longrightarrow> (\<exists>r. normaliseDate v = Inr r))"
proof -
  have "\<exists>n. getWeekOffset pol v now = Inr n"
    by (simp add: getWeekOffset_eq)
  moreover have "\<exists>r. normaliseDate v = Inr r" if "\<exists>raw. v = JSString raw"
    using that normaliseDate_string_shape by blast
  moreover have f: "\<exists>r. normaliseDate v = Inr r" if "\<not> truthy v"
    using that by (simp add: normaliseDate_def)
  moreover have "\<exists>r. normaliseDate v = Inr r" if "\<exists>s. call_trim v = Inr (JSString s)"
  proof (cases "truthy v")
    case True
    then show ?thesis using that normaliseDate_trimmed_shape by blast
  next
    case False
    then show ?thesis by (rule f)
  qed
  ultimately show ?thesis by blast
qed

text \<open>
  An object, the empty string, \<^verbatim>\<open>null\<close>, and the wrapper \<^verbatim>\<open>new String('2025/6/1')\<close>,
  on which the result is the normalised date.
\<close>

theorem never_raises_on_strings_witness:
  "(\<exists>n. getWeekOffset Lenient JSObject 0 = Inr n)
   \<and> (\<exists>r. normaliseDate (JSString '''') = Inr r)
   \<and> (\<exists>r. normaliseDate JSNull = Inr r)
   \<and> call_trim (JSTrimObject (Inr (JSString ''2025/6/1''))) = Inr (JSString ''2025/6/1'')
   \<and> (\<exists>r. normaliseDate (JSTrimObject (Inr (JSString ''2025/6/1''))) = Inr r)
   \<and> normaliseDate (JSTrimObject (Inr (JSString ''2025/6/1''))) = Inr ''2025-06-01''"
proof -
  have a: "normaliseDate (JSTrimObject (Inr (JSString ''2025/6/1''))) = Inr ''2025-06-01''"
    by code_simp
  show ?thesis
    using never_raises_on_strings [of Lenient JSObject 0]
      never_raises_on_strings [of Lenient "JSString ''''" 0]
      never_raises_on_strings [of Lenient JSNull 0]
      never_raises_on_strings [of Lenient "JSTrimObject (Inr (JSString ''2025/6/1''))" 0] a
    by simp
qed

section \<open>The numeric branch of normaliseDate\<close>

lemma digit_not_other:
  assumes "is_digit c"
  shows "\<not> is_space c" "\<not> is_sep c" "\<not> is_lower c" "\<not> is_letter c" "c \<noteq> CHR '',''"
    "lower_char c = c"
  using assms by (auto simp: is_digit_def is_space_def is_sep_def is_lower_def is_letter_def lower_char_def)

lemma sep_not_other:
  assumes "is_sep c"
  shows "\<not> is_space c" "\<not> is_digit c" "\<not> is_lower c" "c \<noteq> CHR '',''" "lower_char c = c"
  using assms by (auto simp: is_digit_def is_space_def is_sep_def is_lower_def lower_char_def)

lemma lower_not_other:
  assumes "is_lower c"
  shows "\<not> is_space c" "\<not> is_digit c" "\<not> is_sep c" "c \<noteq> CHR '',''" "lower_char c = c" "is_letter c"
  using assms by (auto simp: is_digit_def is_space_def is_sep_def is_lower_def is_letter_def lower_char_def)

lemma lower_char_upper:
  "map lower_char ''ABCDEFGHIJKLMNOPQRSTUVWXYZ'' = ''abcdefghijklmnopqrstuvwxyz''"
  by code_simp

lemma letter_lower:
  assumes "is_letter c"
  shows "is_lower (lower_char c)" "\<not> is_space c" "\<not> is_digit c" "c \<noteq> CHR '',''"
proof -
  have up: "is_lower (lower_char c)" if "c \<in> set ''ABCDEFGHIJKLMNOPQRSTUVWXYZ''"
    using that lower_char_upper by (auto simp: is_lower_def)
  have "is_lower c \<or> c \<in> set ''ABCDEFGHIJKLMNOPQRSTUVWXYZ''"
    using assms by (auto simp: is_letter_def is_lower_def)
  then show "is_lower (lower_char c)"
  proof
    assume "is_lower c"
    then show ?thesis using lower_not_other(5) [of c] by simp
  next
    assume "c \<in> set ''ABCDEFGHIJKLMNOPQRSTUVWXYZ''"
    then show ?thesis by (rule up)
  qed
  show "\<not> is_space c" "\<not> is_digit c" "c \<noteq> CHR '',''"
    using assms by (auto simp: is_letter_def is_space_def is_digit_def)
qed

lemma space_char [simp]:
  "is_space (CHR '' '')" "lower_char (CHR '' '') = CHR '' ''" "\<not> is_digit (CHR '' '')"
  "\<not> is_lower (CHR '' '')" "\<not> is_letter (CHR '' '')"
  by (simp_all add: is_space_def lower_char_def is_digit_def is_lower_def is_letter_def)

lemma trim_id:
  assumes "s \<noteq> []" "\<not> is_space (hd s)" "\<not> is_space (last s)"
  shows "trim s = s"
proof -
  have a: "dropWhile is_space s = s"
    using assms(1,2) by (cases s) simp_all
  have "rev s \<noteq> []" "\<not> is_space (hd (rev s))"
    using assms(1,3) by (simp_all add: hd_rev)
  then have b: "dropWhile is_space (rev s) = rev s"
    by (cases "rev s") simp_all
  show ?thesis by (simp add: trim_def a b)
qed

lemma decimal_Cons_zero: "decimal (CHR ''0'' # s) = decimal s"
  by (simp add: decimal_def digit_val_def)

lemma decimal_padStart:
  "digit_string 1 2 d \<Longrightarrow> decimal (padStart 2 (CHR ''0'') d) = decimal d"
  unfolding digit_string_1_2
  by (auto simp: padStart_def decimal_Cons_zero)

lemma padStart_full: "digit_string 2 2 d \<Longrightarrow> padStart 2 (CHR ''0'') d = d"
  by (simp add: padStart_def digit_string_def)

lemma digit_string_nonempty:
  "digit_string 1 2 d \<Longrightarrow> d \<noteq> [] \<and> is_digit (hd d) \<and> is_digit (last d) \<and> list_all is_digit d"
  "digit_string 4 4 y \<Longrightarrow> y \<noteq> [] \<and> is_digit (hd y) \<and> is_digit (last y) \<and> list_all is_digit y"
  "digit_string 2 2 m \<Longrightarrow> m \<noteq> [] \<and> is_digit (hd m) \<and> is_digit (last m) \<and> list_all is_digit m"
  unfolding digit_string_1_2 digit_string_4 digit_string_2 by auto

lemma space_string_nonempty:
  "space_string ws \<Longrightarrow> ws \<noteq> [] \<and> is_space (hd ws) \<and> list_all is_space ws"
  by (cases ws) (auto simp: space_string_def)

lemma month_name_lower:
  "mon \<in> set month_names \<Longrightarrow> mon \<noteq> [] \<and> is_lower (hd mon) \<and> list_all is_lower mon"
  by (auto simp: month_names_def is_lower_def)

lemma suffix_lower:
  "suf \<in> set suffixes \<Longrightarrow> list_all is_lower suf \<and> (suf = [] \<or> suf \<noteq> [] \<and> is_lower (hd suf))"
  by (auto simp: suffixes_def is_lower_def)

lemma toLowerCase_digits: "list_all is_digit s \<Longrightarrow> toLowerCase s = s"
  by (induction s) (simp_all add: toLowerCase_def digit_not_other)

lemma strip_commas_digits: "list_all is_digit s \<Longrightarrow> strip_commas s = s"
  by (induction s) (simp_all add: strip_commas_def digit_not_other)

lemma strip_commas_lower: "list_all is_lower s \<Longrightarrow> strip_commas s = s"
  by (induction s) (simp_all add: strip_commas_def lower_not_other)

lemma toLowerCase_letters: "list_all is_letter s \<Longrightarrow> list_all is_lower (toLowerCase s)"
  by (induction s) (simp_all add: toLowerCase_def letter_lower)

lemma toLowerCase_append [simp]: "toLowerCase (a @ b) = toLowerCase a @ toLowerCase b"
  by (simp add: toLowerCase_def)

lemma toLowerCase_Cons [simp]: "toLowerCase (c # s) = lower_char c # toLowerCase s"
  by (simp add: toLowerCase_def)

lemma strip_commas_append [simp]: "strip_commas (a @ b) = strip_commas a @ strip_commas b"
  by (simp add: strip_commas_def)

lemma strip_commas_Cons [simp]:
  "strip_commas (c # s) = (if c = CHR '','' then strip_commas s else c # strip_commas s)"
  by (simp add: strip_commas_def)

text \<open>An input of the numeric form is matched by the numeric pattern, with these groups.\<close>

lemma rx_direct_match:
  assumes "digit_string 4 4 y" "is_sep c1" "digit_string 1 2 m" "is_sep c2" "digit_string 1 2 d"
  shows "regexp_match rx_direct (y @ c1 # m @ c2 # d) = Some [y, m, d]"
proof (rule regexp_match_eqI)
  show "rx_accepts rx_direct (y @ c1 # m @ c2 # d) [y, m, d]"
    unfolding rx_direct_accepts using assms by blast
next
  fix caps
  assume "rx_accepts rx_direct (y @ c1 # m @ c2 # d) caps"
  then obtain y' c1' m' c2' d' where f: "y @ c1 # m @ c2 # d = y' @ c1' # m' @ c2' # d'"
      "caps = [y', m', d']" "digit_string 4 4 y'" "is_sep c1'" "digit_string 1 2 m'"
      "is_sep c2'" "digit_string 1 2 d'"
    unfolding rx_direct_accepts by blast
  have "length y = length y'"
    using assms(1) f(3) by (simp add: digit_string_def)
  with f(1) have y: "y = y'" and r: "m @ c2 # d = m' @ c2' # d'" by simp_all
  have "m = m' \<and> c2 # d = c2' # d'"
    using r
  proof (rule span_unique)
    show "list_all is_digit m" "list_all is_digit m'"
      using assms(3) f(5) by (simp_all add: digit_string_def)
    show "c2 # d = [] \<or> \<not> is_digit (hd (c2 # d))" "c2' # d' = [] \<or> \<not> is_digit (hd (c2' # d'))"
      using assms(4) f(6) by (simp_all add: sep_not_other)
  qed
  then show "caps = [y, m, d]" using f(2) y by simp
qed

lemma numeric_form_no_month_name:
  assumes "digit_string 4 4 y" "is_sep c1" "digit_string 1 2 m" "is_sep c2" "digit_string 1 2 d"
  shows "month_name_branches (y @ c1 # m @ c2 # d) = Inr ''''"
proof -
  define s where "s = y @ c1 # m @ c2 # d"
  have low: "strip_commas (toLowerCase s) = s"
    using assms digit_string_nonempty
    by (simp add: s_def toLowerCase_digits strip_commas_digits sep_not_other)
  obtain a b c e where y: "y = [a, b, c, e]" "is_digit a" "is_digit b" "is_digit c" "is_digit e"
    using assms(1) unfolding digit_string_4 by blast
  have n1: "\<not> rx_accepts rx_month_first s caps" for caps
  proof
    assume "rx_accepts rx_month_first s caps"
    then obtain mon rest where "s = mon @ rest" "mon \<in> set month_names"
      unfolding rx_month_first_accepts by blast
    then have "is_lower (hd s)"
      using month_name_lower [of mon] by auto
    then show False
      using y by (simp add: s_def lower_not_other digit_not_other)
  qed
  have n2: "\<not> rx_accepts rx_day_first s caps" for caps
  proof
    assume "rx_accepts rx_day_first s caps"
    then obtain d' suf ws rest where f: "s = d' @ suf @ ws @ rest" "digit_string 1 2 d'"
        "suf \<in> set suffixes" "space_string ws"
      unfolding rx_day_first_accepts by blast
    have nd: "\<not> is_digit (hd (suf @ ws @ rest))"
      using suffix_lower [OF f(3)] space_string_nonempty [OF f(4)]
      by (cases suf) (auto simp: lower_not_other digit_not_other)
    have ne: "suf @ ws @ rest \<noteq> []"
      using space_string_nonempty [OF f(4)] by simp
    from f(2) consider x where "d' = [x]" | x x' where "d' = [x, x']"
      unfolding digit_string_1_2 by blast
    then show False
    proof cases
      case 1
      then have "hd (suf @ ws @ rest) = b"
        using f(1) ne unfolding s_def y by (cases "suf @ ws @ rest") auto
      then show False using nd y(3) by simp
    next
      case 2
      then have "hd (suf @ ws @ rest) = c"
        using f(1) ne unfolding s_def y by (cases "suf @ ws @ rest") auto
      then show False using nd y(4) by simp
    qed
  qed
  have "regexp_match rx_month_first s = None" "regexp_match rx_day_first s = None"
    using n1 n2 by (simp_all add: regexp_match_None_iff)
  then show ?thesis
    using low by (simp add: month_name_branches_def s_def [symmetric])
qed

lemma trim_Nil: "trim [] = []"
  by (simp add: trim_def)

lemma numeric_branch_result:
  assumes t: "trim raw = y @ c1 # m @ c2 # d"
    and f: "digit_string 4 4 y" "is_sep c1" "digit_string 1 2 m" "is_sep c2" "digit_string 1 2 d"
  shows "normaliseDate (JSString raw) =
           (if 1 \<le> decimal m \<and> decimal m \<le> 12 \<and> 1 \<le> decimal d \<and> decimal d \<le> 31
            then Inr (y @ ''-'' @ padStart 2 (CHR ''0'') m @ ''-'' @ padStart 2 (CHR ''0'') d)
            else Inr '''')"
proof -
  have ne: "raw \<noteq> []" using t trim_Nil by auto
  have rm: "regexp_match rx_direct (trim raw) = Some [y, m, d]"
    unfolding t using f by (rule rx_direct_match)
  have mb: "month_name_branches (trim raw) = Inr ''''"
    unfolding t using f by (rule numeric_form_no_month_name)
  show ?thesis
    using ne rm mb decimal_padStart [OF f(3)] decimal_padStart [OF f(5)]
    by (simp add: normaliseDate_def Let_def)
qed

text \<open>
  C3, as stated, fails: the pattern has the class \<^verbatim>\<open>[-./_]\<close> twice and no back-reference,
  so an input whose two separators differ is matched and normalised.
\<close>

theorem numeric_branch_mixed_separators_counterexample:
  "regexp_match rx_direct ''2025-06/01'' = Some [''2025'', ''06'', ''01'']
   \<and> normaliseDate (JSString ''2025-06/01'') = Inr ''2025-06-01''
   \<and> normaliseDate (JSString ''2025.6_1'') = Inr ''2025-06-01''"
  by code_simp

text \<open>
  C3, amended. The numeric pattern matches exactly the inputs made of four digits, a
  separator, one or two digits, a separator and one or two digits, where each separator is
  any of \<^verbatim>\<open>-\<close>, \<^verbatim>\<open>.\<close>, \<^verbatim>\<open>/\<close>, \<^verbatim>\<open>_\<close> and the two need not be the same character. For
  every such input, month and day are padded with a zero to two digits, and the result
  \<^verbatim>\<open>y-mm-dd\<close> is returned if the month is in 1..12 and the day in 1..31; otherwise the
  numeric branch returns nothing, the month-name branches are tried, and they give the
  empty string.
\<close>

theorem normaliseDate_numeric_branch:
  "(regexp_match rx_direct s \<noteq> None \<longleftrightarrow>
      (\<exists>y c1 m c2 d. s = y @ c1 # m @ c2 # d \<and> digit_string 4 4 y \<and> is_sep c1
          \<and> digit_string 1 2 m \<and> is_sep c2 \<and> digit_string 1 2 d))
   \<and> (trim raw = y @ c1 # m @ c2 # d \<and> digit_string 4 4 y \<and> is_sep c1
        \<and> digit_string 1 2 m \<and> is_sep c2 \<and> digit_string 1 2 d \<longrightarrow>
      length (padStart 2 (CHR ''0'') m) = 2 \<and> length (padStart 2 (CHR ''0'') d) = 2
      \<and> decimal (padStart 2 (CHR ''0'') m) = decimal m
      \<and> decimal (padStart 2 (CHR ''0'') d) = decimal d
      \<and> normaliseDate (JSString raw) =
           (if 1 \<le> decimal m \<and> decimal m \<le> 12 \<and> 1 \<le> decimal d \<and> decimal d \<le> 31
            then Inr (y @ ''-'' @ padStart 2 (CHR ''0'') m @ ''-'' @ padStart 2 (CHR ''0'') d)
            else month_name_branches (trim raw))
      \<and> month_name_branches (trim raw) = Inr '''')"
proof (intro conjI impI)
  show "regexp_match rx_direct s \<noteq> None \<longleftrightarrow>
      (\<exists>y c1 m c2 d. s = y @ c1 # m @ c2 # d \<and> digit_string 4 4 y \<and> is_sep c1
          \<and> digit_string 1 2 m \<and> is_sep c2 \<and> digit_string 1 2 d)"
    unfolding regexp_match_None_iff rx_direct_accepts by blast
next
  assume a: "trim raw = y @ c1 # m @ c2 # d \<and> digit_string 4 4 y \<and> is_sep c1
        \<and> digit_string 1 2 m \<and> is_sep c2 \<and> digit_string 1 2 d"
  then have t: "trim raw = y @ c1 # m @ c2 # d"
    and f: "digit_string 4 4 y" "is_sep c1" "digit_string 1 2 m" "is_sep c2" "digit_string 1 2 d"
    by simp_all
  show "length (padStart 2 (CHR ''0'') m) = 2" "length (padStart 2 (CHR ''0'') d) = 2"
    using padStart_digit_string [OF f(3)] padStart_digit_string [OF f(5)]
    by (simp_all add: digit_string_def)
  show "decimal (padStart 2 (CHR ''0'') m) = decimal m"
    "decimal (padStart 2 (CHR ''0'') d) = decimal d"
    using f(3,5) by (simp_all add: decimal_padStart)
  show mb: "month_name_branches (trim raw) = Inr ''''"
    unfolding t using f by (rule numeric_form_no_month_name)
  show "normaliseDate (JSString raw) =
           (if 1 \<le> decimal m \<and> decimal m \<le> 12 \<and> 1 \<le> decimal d \<and> decimal d \<le> 31
            then Inr (y @ ''-'' @ padStart 2 (CHR ''0'') m @ ''-'' @ padStart 2 (CHR ''0'') d)
            else month_name_branches (trim raw))"
    using numeric_branch_result [OF t f] mb by simp
qed

text \<open>
  Two different separators with a one-digit month and day, and a month out of range.
\<close>

theorem normaliseDate_numeric_branch_witness:
  "regexp_match rx_direct ''2025/6.1'' \<noteq> None
   \<and> normaliseDate (JSString '' 2025/6.1 '') = Inr ''2025-06-01''
   \<and> normaliseDate (JSString ''2025-13-01'') = Inr ''''
   \<and> month_name_branches ''2025-13-01'' = Inr ''''"
proof -
  have s: "''2025/6.1'' = ''2025'' @ CHR ''/'' # ''6'' @ CHR ''.'' # ''1''" by simp
  have t1: "trim '' 2025/6.1 '' = ''2025'' @ CHR ''/'' # ''6'' @ CHR ''.'' # ''1''" by code_simp
  have t2: "trim ''2025-13-01'' = ''2025'' @ CHR ''-'' # ''13'' @ CHR ''-'' # ''01''" by code_simp
  have y: "digit_string 4 4 ''2025''" by code_simp
  have c: "is_sep (CHR ''/'')" "is_sep (CHR ''.'')" "is_sep (CHR ''-'')" by code_simp+
  have m: "digit_string 1 2 ''6''" "digit_string 1 2 ''1''" "digit_string 1 2 ''13''"
    "digit_string 1 2 ''01''"
    by code_simp+
  have v: "decimal ''6'' = 6" "decimal ''1'' = 1" "decimal ''13'' = 13" "decimal ''01'' = 1"
    by code_simp+
  have p: "padStart 2 (CHR ''0'') ''6'' = ''06''" "padStart 2 (CHR ''0'') ''1'' = ''01''"
    by code_simp+
  have a: "regexp_match rx_direct ''2025/6.1'' \<noteq> None"
    using normaliseDate_numeric_branch [of "''2025/6.1''"] s y c m by blast
  have b: "normaliseDate (JSString '' 2025/6.1 '') = Inr ''2025-06-01''"
    using normaliseDate_numeric_branch [of _ "'' 2025/6.1 ''" "''2025''" "CHR ''/''" "''6''"
        "CHR ''.''" "''1''"] t1 y c m v p
    by simp
  have d: "normaliseDate (JSString ''2025-13-01'') = Inr ''''
      \<and> month_name_branches ''2025-13-01'' = Inr ''''"
    using normaliseDate_numeric_branch [of _ "''2025-13-01''" "''2025''" "CHR ''-''" "''13''"
        "CHR ''-''" "''01''"] t2 y c m v
    by simp
  show ?thesis using a b d by simp
qed

text \<open>
  On the strings of the shape \<^verbatim>\<open>\d{4}-\d{2}-\d{2}\<close> whose month is in 1..12 and whose day
  is in 1..31, \<open>normaliseDate\<close> is the identity; on the other strings of that shape it
  returns the empty string.
\<close>

lemma normaliseDate_canonical:
  assumes "canonical_shape s"
  shows "normaliseDate (JSString s) =
           (if 1 \<le> month_of s \<and> month_of s \<le> 12 \<and> 1 \<le> day_of s \<and> day_of s \<le> 31
            then Inr s else Inr '''')"
proof -
  define y m d where "y = take 4 s" and "m = take 2 (drop 5 s)" and "d = drop 8 s"
  note sp = canonical_shape_split [OF assms, folded y_def m_def d_def]
  have s: "s = y @ CHR ''-'' # m @ CHR ''-'' # d" using sp(1) by simp
  have "s \<noteq> []" "is_digit (hd s)" "is_digit (last s)"
    using digit_string_nonempty(2) [OF sp(2)] digit_string_nonempty(3) [OF sp(4)]
    by (simp_all add: s)
  then have t: "trim s = y @ CHR ''-'' # m @ CHR ''-'' # d"
    using trim_id [of s] s by (simp add: digit_not_other)
  have w: "digit_string 1 2 m" "digit_string 1 2 d"
    using sp(3,4) by (simp_all add: digit_string_def)
  have sep: "is_sep (CHR ''-'')" by (simp add: is_sep_def)
  have "normaliseDate (JSString s) =
           (if 1 \<le> decimal m \<and> decimal m \<le> 12 \<and> 1 \<le> decimal d \<and> decimal d \<le> 31
            then Inr (y @ ''-'' @ padStart 2 (CHR ''0'') m @ ''-'' @ padStart 2 (CHR ''0'') d)
            else Inr '''')"
    using t sp(2) sep w(1) sep w(2) by (rule numeric_branch_result)
  moreover have "y @ ''-'' @ padStart 2 (CHR ''0'') m @ ''-'' @ padStart 2 (CHR ''0'') d = s"
    using padStart_full [OF sp(3)] padStart_full [OF sp(4)] sp(1) by simp
  moreover have "month_of s = decimal m" "day_of s = decimal d"
    by (simp_all add: month_of_def day_of_def m_def d_def)
  ultimately show ?thesis by simp
qed

text \<open>
  C7 fails on the code. \<open>normaliseDate\<close> emits \<^verbatim>\<open>2025-06-99\<close> for \<^verbatim>\<open>june 99 2025\<close> and
  \<^verbatim>\<open>2025-06-00\<close> for \<^verbatim>\<open>0 june 2025\<close>: the month-name branches lack the range check
  of the numeric branch. Both results have the shape \<^verbatim>\<open>\d{4}-\d{2}-\d{2}\<close>, and
  \<open>normaliseDate\<close> maps both to the empty string, not to themselves.
\<close>

theorem normaliseDate_not_idempotent:
  "normaliseDate (JSString ''june 99 2025'') = Inr ''2025-06-99''
   \<and> canonical_shape ''2025-06-99''
   \<and> normaliseDate (JSString ''2025-06-99'') = Inr ''''
   \<and> normaliseDate (JSString ''0 june 2025'') = Inr ''2025-06-00''
   \<and> canonical_shape ''2025-06-00''
   \<and> normaliseDate (JSString ''2025-06-00'') = Inr ''''"
  by code_simp

text \<open>
  C10. The month-name branches do not check the range of the day: \<^verbatim>\<open>june 99 2025\<close>,
  \<^verbatim>\<open>june 0 2025\<close> and \<^verbatim>\<open>99 june 2025\<close> give non-empty results whose day fields, 99
  and 0, are outside 1..31, while the numeric branch rejects the same days.
\<close>

theorem month_name_day_unchecked:
  "normaliseDate (JSString ''june 99 2025'') = Inr ''2025-06-99''
   \<and> normaliseDate (JSString ''june 0 2025'') = Inr ''2025-06-00''
   \<and> normaliseDate (JSString ''99 june 2025'') = Inr ''2025-06-99''
   \<and> day_of ''2025-06-99'' = 99 \<and> day_of ''2025-06-00'' = 0
   \<and> normaliseDate (JSString ''2025/06/99'') = Inr ''''
   \<and> normaliseDate (JSString ''2025.6.0'') = Inr ''''"
  by code_simp

text \<open>Some input yields a non-empty result whose day is outside 1..31.\<close>

theorem month_name_day_unchecked_witness:
  "\<exists>raw r. normaliseDate (JSString raw) = Inr r \<and> r \<noteq> [] \<and> \<not> (1 \<le> day_of r \<and> day_of r \<le> 31)"
proof -
  have "normaliseDate (JSString ''june 99 2025'') = Inr ''2025-06-99''
      \<and> ''2025-06-99'' \<noteq> [] \<and> \<not> (1 \<le> day_of ''2025-06-99'' \<and> day_of ''2025-06-99'' \<le> 31)"
    using month_name_day_unchecked by simp
  then show ?thesis by blast
qed

section \<open>The month-name branches of normaliseDate\<close>

lemma space_not_other:
  assumes "is_space c"
  shows "\<not> is_digit c" "\<not> is_lower c"
  using assms lower_not_other(1) digit_not_other(1) by blast+

lemma month_first_accepts_iff:
  "rx_accepts rx_month_first L caps \<longleftrightarrow>
     (\<exists>mon d y. caps = [mon, d, y] \<and> mon \<in> set month_names \<and> month_first_shape mon d y L)"
  unfolding rx_month_first_accepts month_first_shape_def by blast

lemma day_first_accepts_iff:
  "rx_accepts rx_day_first L caps \<longleftrightarrow>
     (\<exists>d mon y. caps = [d, mon, y] \<and> mon \<in> set month_names \<and> day_first_shape mon d y L)"
  unfolding rx_day_first_accepts day_first_shape_def by blast

lemma month_name_word: "mon \<in> set month_names \<Longrightarrow> is_word mon"
  by (auto simp: month_names_def is_word_def is_space_def)

lemma word_head: "is_word W \<Longrightarrow> W \<noteq> [] \<and> \<not> is_space (hd W)"
  by (cases W) (simp_all add: is_word_def)

lemma digits_not_space: "list_all is_digit d \<Longrightarrow> list_all (\<lambda>c. \<not> is_space c) d"
  by (induction d) (simp_all add: digit_not_other)

lemma lowers_not_space: "list_all is_lower suf \<Longrightarrow> list_all (\<lambda>c. \<not> is_space c) suf"
  by (induction suf) (simp_all add: lower_not_other)

text \<open>A text has the month-first layout in one way only.\<close>

lemma month_first_shape_unique:
  assumes W: "is_word W" and W': "is_word W'"
    and a: "month_first_shape W d y L" and b: "month_first_shape W' d' y' L"
  shows "W = W' \<and> d = d' \<and> y = y'"
proof -
  from a obtain ws suf ws1 where
    L: "L = W @ ws @ d @ suf @ ws1 @ y" and ws: "space_string ws" and d: "digit_string 1 2 d"
    and suf: "suf \<in> set suffixes" and ws1: "space_string ws1" and y: "digit_string 4 4 y"
    unfolding month_first_shape_def by blast
  from b obtain ws' suf' ws1' where
    L': "L = W' @ ws' @ d' @ suf' @ ws1' @ y'" and ws': "space_string ws'"
    and d': "digit_string 1 2 d'" and suf': "suf' \<in> set suffixes"
    and ws1': "space_string ws1'" and y': "digit_string 4 4 y'"
    unfolding month_first_shape_def by blast
  note wsn = space_string_nonempty [OF ws] and ws'n = space_string_nonempty [OF ws']
  note ws1n = space_string_nonempty [OF ws1] and ws1'n = space_string_nonempty [OF ws1']
  note dn = digit_string_nonempty(1) [OF d] and d'n = digit_string_nonempty(1) [OF d']
  note yn = digit_string_nonempty(2) [OF y] and y'n = digit_string_nonempty(2) [OF y']
  note sl = suffix_lower [OF suf] and sl' = suffix_lower [OF suf']
  have "W @ (ws @ d @ suf @ ws1 @ y) = W' @ (ws' @ d' @ suf' @ ws1' @ y')"
    using L L' by simp
  then have 1: "W = W' \<and> ws @ d @ suf @ ws1 @ y = ws' @ d' @ suf' @ ws1' @ y'"
  proof (rule span_unique [where P = "\<lambda>c. \<not> is_space c"])
    show "list_all (\<lambda>c. \<not> is_space c) W" "list_all (\<lambda>c. \<not> is_space c) W'"
      using W W' by (simp_all add: is_word_def)
    show "ws @ d @ suf @ ws1 @ y = [] \<or> \<not> \<not> is_space (hd (ws @ d @ suf @ ws1 @ y))"
      using wsn by simp
    show "ws' @ d' @ suf' @ ws1' @ y' = [] \<or> \<not> \<not> is_space (hd (ws' @ d' @ suf' @ ws1' @ y'))"
      using ws'n by simp
  qed
  then have "ws @ (d @ suf @ ws1 @ y) = ws' @ (d' @ suf' @ ws1' @ y')" by (rule conjunct2)
  then have 2: "ws = ws' \<and> d @ suf @ ws1 @ y = d' @ suf' @ ws1' @ y'"
  proof (rule span_unique [where P = is_space])
    show "list_all is_space ws" "list_all is_space ws'" using wsn ws'n by simp_all
    show "d @ suf @ ws1 @ y = [] \<or> \<not> is_space (hd (d @ suf @ ws1 @ y))"
      using dn by (simp add: digit_not_other)
    show "d' @ suf' @ ws1' @ y' = [] \<or> \<not> is_space (hd (d' @ suf' @ ws1' @ y'))"
      using d'n by (simp add: digit_not_other)
  qed
  then have "d @ (suf @ ws1 @ y) = d' @ (suf' @ ws1' @ y')" by (rule conjunct2)
  then have 3: "d = d' \<and> suf @ ws1 @ y = suf' @ ws1' @ y'"
  proof (rule span_unique [where P = is_digit])
    show "list_all is_digit d" "list_all is_digit d'" using dn d'n by simp_all
    show "suf @ ws1 @ y = [] \<or> \<not> is_digit (hd (suf @ ws1 @ y))"
      using sl ws1n by (auto simp: space_not_other lower_not_other)
    show "suf' @ ws1' @ y' = [] \<or> \<not> is_digit (hd (suf' @ ws1' @ y'))"
      using sl' ws1'n by (auto simp: space_not_other lower_not_other)
  qed
  then have "suf @ (ws1 @ y) = suf' @ (ws1' @ y')" by (rule conjunct2)
  then have 4: "suf = suf' \<and> ws1 @ y = ws1' @ y'"
  proof (rule span_unique [where P = is_lower])
    show "list_all is_lower suf" "list_all is_lower suf'" using sl sl' by simp_all
    show "ws1 @ y = [] \<or> \<not> is_lower (hd (ws1 @ y))"
      using ws1n by (simp add: space_not_other)
    show "ws1' @ y' = [] \<or> \<not> is_lower (hd (ws1' @ y'))"
      using ws1'n by (simp add: space_not_other)
  qed
  then have "ws1 @ y = ws1' @ y'" by (rule conjunct2)
  then have 5: "ws1 = ws1' \<and> y = y'"
  proof (rule span_unique [where P = is_space])
    show "list_all is_space ws1" "list_all is_space ws1'" using ws1n ws1'n by simp_all
    show "y = [] \<or> \<not> is_space (hd y)" using yn by (simp add: digit_not_other)
    show "y' = [] \<or> \<not> is_space (hd y')" using y'n by (simp add: digit_not_other)
  qed
  show ?thesis using 1 3 5 by simp
qed

text \<open>The same for the day-first layout.\<close>

lemma day_first_shape_unique:
  assumes W: "is_word W" and W': "is_word W'"
    and a: "day_first_shape W d y L" and b: "day_first_shape W' d' y' L"
  shows "W = W' \<and> d = d' \<and> y = y'"
proof -
  from a obtain suf ws ws1 where
    L: "L = d @ suf @ ws @ W @ ws1 @ y" and d: "digit_string 1 2 d"
    and suf: "suf \<in> set suffixes" and ws: "space_string ws" and ws1: "space_string ws1"
    and y: "digit_string 4 4 y"
    unfolding day_first_shape_def by blast
  from b obtain suf' ws' ws1' where
    L': "L = d' @ suf' @ ws' @ W' @ ws1' @ y'" and d': "digit_string 1 2 d'"
    and suf': "suf' \<in> set suffixes" and ws': "space_string ws'" and ws1': "space_string ws1'"
    and y': "digit_string 4 4 y'"
    unfolding day_first_shape_def by blast
  note wsn = space_string_nonempty [OF ws] and ws'n = space_string_nonempty [OF ws']
  note ws1n = space_string_nonempty [OF ws1] and ws1'n = space_string_nonempty [OF ws1']
  note dn = digit_string_nonempty(1) [OF d] and d'n = digit_string_nonempty(1) [OF d']
  note yn = digit_string_nonempty(2) [OF y] and y'n = digit_string_nonempty(2) [OF y']
  note sl = suffix_lower [OF suf] and sl' = suffix_lower [OF suf']
  have Wh: "W \<noteq> []" "\<not> is_space (hd W)" "W' \<noteq> []" "\<not> is_space (hd W')"
    using word_head [OF W] word_head [OF W'] by simp_all
  have "d @ (suf @ ws @ W @ ws1 @ y) = d' @ (suf' @ ws' @ W' @ ws1' @ y')"
    using L L' by simp
  then have 1: "d = d' \<and> suf @ ws @ W @ ws1 @ y = suf' @ ws' @ W' @ ws1' @ y'"
  proof (rule span_unique [where P = is_digit])
    show "list_all is_digit d" "list_all is_digit d'" using dn d'n by simp_all
    show "suf @ ws @ W @ ws1 @ y = [] \<or> \<not> is_digit (hd (suf @ ws @ W @ ws1 @ y))"
      using sl wsn by (auto simp: space_not_other lower_not_other)
    show "suf' @ ws' @ W' @ ws1' @ y' = [] \<or> \<not> is_digit (hd (suf' @ ws' @ W' @ ws1' @ y'))"
      using sl' ws'n by (auto simp: space_not_other lower_not_other)
  qed
  then have "suf @ (ws @ W @ ws1 @ y) = suf' @ (ws' @ W' @ ws1' @ y')" by (rule conjunct2)
  then have 2: "suf = suf' \<and> ws @ W @ ws1 @ y = ws' @ W' @ ws1' @ y'"
  proof (rule span_unique [where P = is_lower])
    show "list_all is_lower suf" "list_all is_lower suf'" using sl sl' by simp_all
    show "ws @ W @ ws1 @ y = [] \<or> \<not> is_lower (hd (ws @ W @ ws1 @ y))"
      using wsn by (simp add: space_not_other)
    show "ws' @ W' @ ws1' @ y' = [] \<or> \<not> is_lower (hd (ws' @ W' @ ws1' @ y'))"
      using ws'n by (simp add: space_not_other)
  qed
  then have "ws @ (W @ ws1 @ y) = ws' @ (W' @ ws1' @ y')" by (rule conjunct2)
  then have 3: "ws = ws' \<and> W @ ws1 @ y = W' @ ws1' @ y'"
  proof (rule span_unique [where P = is_space])
    show "list_all is_space ws" "list_all is_space ws'" using wsn ws'n by simp_all
    show "W @ ws1 @ y = [] \<or> \<not> is_space (hd (W @ ws1 @ y))" using Wh by simp
    show "W' @ ws1' @ y' = [] \<or> \<not> is_space (hd (W' @ ws1' @ y'))" using Wh by simp
  qed
  then have "W @ (ws1 @ y) = W' @ (ws1' @ y')" by (rule conjunct2)
  then have 4: "W = W' \<and> ws1 @ y = ws1' @ y'"
  proof (rule span_unique [where P = "\<lambda>c. \<not> is_space c"])
    show "list_all (\<lambda>c. \<not> is_space c) W" "list_all (\<lambda>c. \<not> is_space c) W'"
      using W W' by (simp_all add: is_word_def)
    show "ws1 @ y = [] \<or> \<not> \<not> is_space (hd (ws1 @ y))" using ws1n by simp
    show "ws1' @ y' = [] \<or> \<not> \<not> is_space (hd (ws1' @ y'))" using ws1'n by simp
  qed
  then have "ws1 @ y = ws1' @ y'" by (rule conjunct2)
  then have 5: "ws1 = ws1' \<and> y = y'"
  proof (rule span_unique [where P = is_space])
    show "list_all is_space ws1" "list_all is_space ws1'" using ws1n ws1'n by simp_all
    show "y = [] \<or> \<not> is_space (hd y)" using yn by (simp add: digit_not_other)
    show "y' = [] \<or> \<not> is_space (hd y')" using y'n by (simp add: digit_not_other)
  qed
  show ?thesis using 1 4 5 by simp
qed

text \<open>
  A text in the month-first layout is not matched by the day-first pattern, and a text in
  the day-first layout is not matched by the month-first pattern.
\<close>

lemma month_first_shape_not_day_first:
  assumes W: "is_word W" and a: "month_first_shape W d y L"
  shows "\<not> rx_accepts rx_day_first L caps"
proof
  assume "rx_accepts rx_day_first L caps"
  then obtain d' suf' ws' mon ws1' y' where
    L': "L = d' @ suf' @ ws' @ mon @ ws1' @ y'" and d': "digit_string 1 2 d'"
    and suf': "suf' \<in> set suffixes" and ws': "space_string ws'"
    and mon: "mon \<in> set month_names"
    unfolding rx_day_first_accepts by blast
  from a obtain ws suf ws1 where
    L: "L = W @ ws @ d @ suf @ ws1 @ y" and ws: "space_string ws" and d: "digit_string 1 2 d"
    unfolding month_first_shape_def by blast
  note wsn = space_string_nonempty [OF ws] and ws'n = space_string_nonempty [OF ws']
  note dn = digit_string_nonempty(1) [OF d] and d'n = digit_string_nonempty(1) [OF d']
  note sl' = suffix_lower [OF suf'] and ml = month_name_lower [OF mon]
  have "W @ (ws @ d @ suf @ ws1 @ y) = (d' @ suf') @ (ws' @ mon @ ws1' @ y')"
    using L L' by simp
  then have 1: "W = d' @ suf' \<and> ws @ d @ suf @ ws1 @ y = ws' @ mon @ ws1' @ y'"
  proof (rule span_unique [where P = "\<lambda>c. \<not> is_space c"])
    show "list_all (\<lambda>c. \<not> is_space c) W" using W by (simp add: is_word_def)
    show "list_all (\<lambda>c. \<not> is_space c) (d' @ suf')"
      using d'n sl' by (simp add: digits_not_space lowers_not_space)
    show "ws @ d @ suf @ ws1 @ y = [] \<or> \<not> \<not> is_space (hd (ws @ d @ suf @ ws1 @ y))"
      using wsn by simp
    show "ws' @ mon @ ws1' @ y' = [] \<or> \<not> \<not> is_space (hd (ws' @ mon @ ws1' @ y'))"
      using ws'n by simp
  qed
  then have "ws @ (d @ suf @ ws1 @ y) = ws' @ (mon @ ws1' @ y')" by (rule conjunct2)
  then have 2: "ws = ws' \<and> d @ suf @ ws1 @ y = mon @ ws1' @ y'"
  proof (rule span_unique [where P = is_space])
    show "list_all is_space ws" "list_all is_space ws'" using wsn ws'n by simp_all
    show "d @ suf @ ws1 @ y = [] \<or> \<not> is_space (hd (d @ suf @ ws1 @ y))"
      using dn by (simp add: digit_not_other)
    show "mon @ ws1' @ y' = [] \<or> \<not> is_space (hd (mon @ ws1' @ y'))"
      using ml by (simp add: lower_not_other)
  qed
  then have "hd (d @ suf @ ws1 @ y) = hd (mon @ ws1' @ y')" by simp
  then have "hd d = hd mon" using dn ml by simp
  then show False using dn ml by (auto simp: lower_not_other)
qed

lemma day_first_shape_not_month_first:
  assumes a: "day_first_shape W d y L"
  shows "\<not> rx_accepts rx_month_first L caps"
proof
  assume "rx_accepts rx_month_first L caps"
  then obtain mon rest where L': "L = mon @ rest" and mon: "mon \<in> set month_names"
    unfolding rx_month_first_accepts by blast
  from a obtain rest' where L: "L = d @ rest'" and d: "digit_string 1 2 d"
    unfolding day_first_shape_def by blast
  note dn = digit_string_nonempty(1) [OF d] and ml = month_name_lower [OF mon]
  have "hd (d @ rest') = hd (mon @ rest)" using L L' by simp
  then have "hd d = hd mon" using dn ml by simp
  then show False using dn ml by (auto simp: lower_not_other)
qed

text \<open>What the two patterns find on a text that has one of the layouts.\<close>

lemma month_first_shape_match:
  assumes W: "is_word W" and a: "month_first_shape W d y L"
  shows "regexp_match rx_month_first L = (if W \<in> set month_names then Some [W, d, y] else None)"
    and "regexp_match rx_day_first L = None"
proof -
  have u: "caps = [W, d, y] \<and> W \<in> set month_names" if "rx_accepts rx_month_first L caps" for caps
  proof -
    from that obtain mon d' y' where c: "caps = [mon, d', y']" "mon \<in> set month_names"
        "month_first_shape mon d' y' L"
      unfolding month_first_accepts_iff by blast
    have "W = mon \<and> d = d' \<and> y = y'"
      using W month_name_word [OF c(2)] a c(3) by (rule month_first_shape_unique)
    then show ?thesis using c(1,2) by simp
  qed
  show "regexp_match rx_month_first L = (if W \<in> set month_names then Some [W, d, y] else None)"
  proof (cases "W \<in> set month_names")
    case True
    have "regexp_match rx_month_first L = Some [W, d, y]"
    proof (rule regexp_match_eqI)
      show "rx_accepts rx_month_first L [W, d, y]"
        unfolding month_first_accepts_iff using True a by blast
      show "c = [W, d, y]" if "rx_accepts rx_month_first L c" for c
        using u [OF that] by simp
    qed
    then show ?thesis using True by simp
  next
    case False
    then have "regexp_match rx_month_first L = None"
      unfolding regexp_match_None_iff using u by blast
    then show ?thesis using False by simp
  qed
  show "regexp_match rx_day_first L = None"
    unfolding regexp_match_None_iff
    using month_first_shape_not_day_first [OF W a] by blast
qed

lemma day_first_shape_match:
  assumes W: "is_word W" and a: "day_first_shape W d y L"
  shows "regexp_match rx_month_first L = None"
    and "regexp_match rx_day_first L = (if W \<in> set month_names then Some [d, W, y] else None)"
proof -
  have u: "caps = [d, W, y] \<and> W \<in> set month_names" if "rx_accepts rx_day_first L caps" for caps
  proof -
    from that obtain d' mon y' where c: "caps = [d', mon, y']" "mon \<in> set month_names"
        "day_first_shape mon d' y' L"
      unfolding day_first_accepts_iff by blast
    have "W = mon \<and> d = d' \<and> y = y'"
      using W month_name_word [OF c(2)] a c(3) by (rule day_first_shape_unique)
    then show ?thesis using c(1,2) by simp
  qed
  show "regexp_match rx_day_first L = (if W \<in> set month_names then Some [d, W, y] else None)"
  proof (cases "W \<in> set month_names")
    case True
    have "regexp_match rx_day_first L = Some [d, W, y]"
    proof (rule regexp_match_eqI)
      show "rx_accepts rx_day_first L [d, W, y]"
        unfolding day_first_accepts_iff using True a by blast
      show "c = [d, W, y]" if "rx_accepts rx_day_first L c" for c
        using u [OF that] by simp
    qed
    then show ?thesis using True by simp
  next
    case False
    then have "regexp_match rx_day_first L = None"
      unfolding regexp_match_None_iff using u by blast
    then show ?thesis using False by simp
  qed
  show "regexp_match rx_month_first L = None"
    unfolding regexp_match_None_iff
    using day_first_shape_not_month_first [OF a] by blast
qed

lemma month_name_branches_on_shape:
  assumes W: "is_word W"
    and a: "month_first_shape W d y (lowered s) \<or> day_first_shape W d y (lowered s)"
  shows "month_name_branches s =
           (if W \<in> set month_names then Inr (emitted W d y) else Inr '''')"
  using a
proof
  assume "month_first_shape W d y (lowered s)"
  from month_first_shape_match [OF W this] show ?thesis
    by (simp add: month_name_branches_def lowered_def [symmetric] emitted_def Let_def)
next
  assume "day_first_shape W d y (lowered s)"
  from day_first_shape_match [OF W this] show ?thesis
    by (simp add: month_name_branches_def lowered_def [symmetric] emitted_def Let_def)
qed

text \<open>A text in one of the layouts contains white space, which the numeric pattern excludes.\<close>

lemma shape_has_space:
  assumes "month_first_shape W d y L \<or> day_first_shape W d y L"
  shows "\<exists>c \<in> set L. is_space c"
proof -
  from assms obtain u ws v where "L = u @ ws @ v" "space_string ws"
    unfolding month_first_shape_def day_first_shape_def
    by (metis append.assoc)
  then show ?thesis
    using space_string_nonempty [of ws] by (cases ws) auto
qed

lemma numeric_form_lowered:
  assumes "rx_accepts rx_direct s caps"
  shows "lowered s = s" and "\<forall>c \<in> set s. \<not> is_space c"
proof -
  from assms obtain y c1 m c2 d where s: "s = y @ c1 # m @ c2 # d"
    and f: "digit_string 4 4 y" "is_sep c1" "digit_string 1 2 m" "is_sep c2" "digit_string 1 2 d"
    unfolding rx_direct_accepts by blast
  note yn = digit_string_nonempty(2) [OF f(1)] and mn = digit_string_nonempty(1) [OF f(3)]
    and dn = digit_string_nonempty(1) [OF f(5)]
  show "lowered s = s"
    using yn mn dn f(2,4)
    by (simp add: s lowered_def toLowerCase_digits strip_commas_digits sep_not_other)
  show "\<forall>c \<in> set s. \<not> is_space c"
    using yn mn dn f(2,4)
    by (auto simp: s list_all_iff digit_not_other sep_not_other)
qed

lemma shape_not_numeric:
  assumes "month_first_shape W d y (lowered s) \<or> day_first_shape W d y (lowered s)"
  shows "regexp_match rx_direct s = None"
  unfolding regexp_match_None_iff
proof (intro allI notI)
  fix caps
  assume "rx_accepts rx_direct s caps"
  from numeric_form_lowered [OF this] shape_has_space [OF assms]
  show False by auto
qed

lemma lowered_Nil: "lowered [] = []"
  by (simp add: lowered_def toLowerCase_def strip_commas_def)

text \<open>
  The result of \<open>normaliseDate\<close> on every input whose lowered text has one of the layouts,
  whatever word stands in the place of the month.
\<close>

lemma normaliseDate_on_shape:
  assumes W: "is_word W"
    and a: "month_first_shape W d y (lowered (trim raw))
            \<or> day_first_shape W d y (lowered (trim raw))"
  shows "normaliseDate (JSString raw) =
           (if W \<in> set month_names then Inr (emitted W d y) else Inr '''')"
proof -
  have "lowered (trim raw) \<noteq> []"
    using shape_has_space [OF a] by auto
  then have ne: "raw \<noteq> []"
    using lowered_Nil trim_Nil by auto
  have "normaliseDate (JSString raw) = month_name_branches (trim raw)"
    using ne shape_not_numeric [OF a] by (simp add: normaliseDate_def)
  then show ?thesis
    using month_name_branches_on_shape [OF W a] by simp
qed

text \<open>
  Conversely, a non-empty result that does not come from the numeric branch comes from a
  text in one of the two layouts with one of the twelve month names in it.
\<close>

lemma month_name_branches_only_names:
  assumes "month_name_branches s = Inr r" and "r \<noteq> []"
  shows "\<exists>mon d y. mon \<in> set month_names
           \<and> (month_first_shape mon d y (lowered s) \<or> day_first_shape mon d y (lowered s))
           \<and> r = emitted mon d y"
proof (cases "regexp_match rx_month_first (lowered s)")
  case (Some m1)
  then obtain mon d y where c: "m1 = [mon, d, y]" "mon \<in> set month_names"
      "month_first_shape mon d y (lowered s)"
    using regexp_match_SomeD [OF Some] unfolding month_first_accepts_iff by blast
  then have "r = emitted mon d y"
    using assms(1) Some
    by (simp add: month_name_branches_def lowered_def [symmetric] emitted_def Let_def)
  then show ?thesis using c(2,3) by blast
next
  case None
  show ?thesis
  proof (cases "regexp_match rx_day_first (lowered s)")
    case (Some m2)
    then obtain d mon y where c: "m2 = [d, mon, y]" "mon \<in> set month_names"
        "day_first_shape mon d y (lowered s)"
      using regexp_match_SomeD [OF Some] unfolding day_first_accepts_iff by blast
    then have "r = emitted mon d y"
      using assms(1) None Some
      by (simp add: month_name_branches_def lowered_def [symmetric] emitted_def Let_def)
    then show ?thesis using c(2,3) by blast
  next
    case n2: None
    then have "r = []"
      using assms(1) None
      by (simp add: month_name_branches_def lowered_def [symmetric] Let_def)
    then show ?thesis using assms(2) by simp
  qed
qed

lemma normaliseDate_only_names:
  assumes "normaliseDate (JSString raw) = Inr r" and "r \<noteq> []"
  shows "regexp_match rx_direct (trim raw) \<noteq> None
         \<or> (\<exists>mon d y. mon \<in> set month_names
              \<and> (month_first_shape mon d y (lowered (trim raw))
                  \<or> day_first_shape mon d y (lowered (trim raw)))
              \<and> r = emitted mon d y)"
proof (cases "regexp_match rx_direct (trim raw)")
  case None
  have "raw \<noteq> []" using assms by (auto simp: normaliseDate_def)
  then have "month_name_branches (trim raw) = Inr r"
    using assms(1) None by (simp add: normaliseDate_def)
  then show ?thesis
    using month_name_branches_only_names [OF _ assms(2)] by blast
next
  case (Some direct)
  then show ?thesis by simp
qed

lemma abbreviations_not_names:
  "\<forall>a \<in> set month_abbreviations. is_word a \<and> a \<notin> set month_names"
  by (simp add: month_abbreviations_def month_names_def is_word_def is_space_def)

text \<open>
  C9. The word-order branches of \<open>normaliseDate\<close> recognise exactly the twelve full
  lower-case English month names, compared with the lower-cased input, and no
  abbreviation. For every input string: a non-empty result that does not come from the
  numeric pattern comes from a lowered text in the month-first or the day-first layout
  with one of the twelve names in the place of the month; and whenever the lowered text has
  one of the two layouts with any word \<open>W\<close> in that place, the result is the date built from
  \<open>W\<close>, the day and the year if \<open>W\<close> is one of the twelve names, and the empty string if it
  is not, as for every abbreviation. The twelve names are the keys of the \<^verbatim>\<open>MONTHS\<close>
  table.
\<close>

theorem normaliseDate_month_words:
  "(normaliseDate (JSString raw) = Inr r \<and> r \<noteq> [] \<longrightarrow>
      regexp_match rx_direct (trim raw) \<noteq> None
      \<or> (\<exists>mon d y. mon \<in> set month_names
           \<and> (month_first_shape mon d y (lowered (trim raw))
               \<or> day_first_shape mon d y (lowered (trim raw)))
           \<and> r = emitted mon d y))
   \<and> (is_word W
        \<and> (month_first_shape W d y (lowered (trim raw))
            \<or> day_first_shape W d y (lowered (trim raw))) \<longrightarrow>
      normaliseDate (JSString raw) =
        (if W \<in> set month_names then Inr (emitted W d y) else Inr ''''))
   \<and> (\<forall>a \<in> set month_abbreviations. is_word a \<and> a \<notin> set month_names)
   \<and> map fst MONTHS = month_names \<and> length month_names = 12 \<and> distinct month_names"
proof (intro conjI impI)
  assume "normaliseDate (JSString raw) = Inr r \<and> r \<noteq> []"
  then show "regexp_match rx_direct (trim raw) \<noteq> None
      \<or> (\<exists>mon d y. mon \<in> set month_names
           \<and> (month_first_shape mon d y (lowered (trim raw))
               \<or> day_first_shape mon d y (lowered (trim raw)))
           \<and> r = emitted mon d y)"
    using normaliseDate_only_names [of raw r] by blast
next
  assume "is_word W
        \<and> (month_first_shape W d y (lowered (trim raw))
            \<or> day_first_shape W d y (lowered (trim raw)))"
  then show "normaliseDate (JSString raw) =
        (if W \<in> set month_names then Inr (emitted W d y) else Inr '''')"
    using normaliseDate_on_shape [of W d y raw] by blast
next
  show "\<forall>a \<in> set month_abbreviations. is_word a \<and> a \<notin> set month_names"
    by (rule abbreviations_not_names)
  show "map fst MONTHS = month_names" by (simp add: MONTHS_def month_names_def)
  show "length month_names = 12" by (simp add: month_names_def)
  show "distinct month_names" by (simp add: month_names_def)
qed

text \<open>
  The abbreviation \<^verbatim>\<open>jan\<close> in \<^verbatim>\<open>jan 1 2025\<close>, the abbreviation with a full stop, an
  ordinal suffix, a comma and more white space in \<^verbatim>\<open>Jan.  1st, 2025\<close>, the abbreviation
  \<^verbatim>\<open>sept\<close> in the day-first layout, and the full name \<^verbatim>\<open>June\<close> in both layouts.
\<close>

theorem normaliseDate_month_words_witness:
  "normaliseDate (JSString ''jan 1 2025'') = Inr ''''
   \<and> normaliseDate (JSString ''Jan.  1st, 2025'') = Inr ''''
   \<and> normaliseDate (JSString ''21st Sept 2025'') = Inr ''''
   \<and> normaliseDate (JSString '' June 1st, 2025'') = Inr ''2025-06-01''
   \<and> normaliseDate (JSString ''1 JUNE 2025'') = Inr ''2025-06-01''
   \<and> regexp_match rx_direct (trim '' June 1st, 2025'') = None
   \<and> (\<exists>mon d y. mon \<in> set month_names
         \<and> (month_first_shape mon d y (lowered (trim '' June 1st, 2025''))
             \<or> day_first_shape mon d y (lowered (trim '' June 1st, 2025'')))
         \<and> ''2025-06-01'' = emitted mon d y)"
proof -
  have sp: "space_string '' ''" "space_string ''  ''" by code_simp+
  have sf: "[] \<in> set suffixes" "''st'' \<in> set suffixes" by code_simp+
  have dg: "digit_string 1 2 ''1''" "digit_string 1 2 ''21''" "digit_string 4 4 ''2025''"
    by code_simp+
  have wd: "is_word ''jan''" "is_word ''jan.''" "is_word ''sept''" "is_word ''june''"
    by code_simp+
  have nm: "''jan'' \<notin> set month_names" "''jan.'' \<notin> set month_names"
    "''sept'' \<notin> set month_names" "''june'' \<in> set month_names"
    by code_simp+
  have l1: "lowered (trim ''jan 1 2025'') = ''jan'' @ '' '' @ ''1'' @ [] @ '' '' @ ''2025''"
    by code_simp
  have l2: "lowered (trim ''Jan.  1st, 2025'')
      = ''jan.'' @ ''  '' @ ''1'' @ ''st'' @ '' '' @ ''2025''"
    by code_simp
  have l3: "lowered (trim ''21st Sept 2025'')
      = ''21'' @ ''st'' @ '' '' @ ''sept'' @ '' '' @ ''2025''"
    by code_simp
  have l4: "lowered (trim '' June 1st, 2025'')
      = ''june'' @ '' '' @ ''1'' @ ''st'' @ '' '' @ ''2025''"
    by code_simp
  have l5: "lowered (trim ''1 JUNE 2025'') = ''1'' @ [] @ '' '' @ ''june'' @ '' '' @ ''2025''"
    by code_simp
  have s1: "month_first_shape ''jan'' ''1'' ''2025'' (lowered (trim ''jan 1 2025''))"
    unfolding month_first_shape_def l1 using sp sf dg by blast
  have s2: "month_first_shape ''jan.'' ''1'' ''2025'' (lowered (trim ''Jan.  1st, 2025''))"
    unfolding month_first_shape_def l2 using sp sf dg by blast
  have s3: "day_first_shape ''sept'' ''21'' ''2025'' (lowered (trim ''21st Sept 2025''))"
    unfolding day_first_shape_def l3 using sp sf dg by blast
  have s4: "month_first_shape ''june'' ''1'' ''2025'' (lowered (trim '' June 1st, 2025''))"
    unfolding month_first_shape_def l4 using sp sf dg by blast
  have s5: "day_first_shape ''june'' ''1'' ''2025'' (lowered (trim ''1 JUNE 2025''))"
    unfolding day_first_shape_def l5 using sp sf dg by blast
  have e: "emitted ''june'' ''1'' ''2025'' = ''2025-06-01''" by code_simp
  have r1: "normaliseDate (JSString ''jan 1 2025'') = Inr ''''"
    using normaliseDate_month_words [of "''jan 1 2025''" _ "''jan''" "''1''" "''2025''"]
      wd(1) nm(1) s1
    by simp
  have r2: "normaliseDate (JSString ''Jan.  1st, 2025'') = Inr ''''"
    using normaliseDate_month_words [of "''Jan.  1st, 2025''" _ "''jan.''" "''1''" "''2025''"]
      wd(2) nm(2) s2
    by simp
  have r3: "normaliseDate (JSString ''21st Sept 2025'') = Inr ''''"
    using normaliseDate_month_words [of "''21st Sept 2025''" _ "''sept''" "''21''" "''2025''"]
      wd(3) nm(3) s3
    by simp
  have r4: "normaliseDate (JSString '' June 1st, 2025'') = Inr ''2025-06-01''"
    using normaliseDate_month_words [of "'' June 1st, 2025''" _ "''june''" "''1''" "''2025''"]
      wd(4) nm(4) s4 e
    by simp
  have r5: "normaliseDate (JSString ''1 JUNE 2025'') = Inr ''2025-06-01''"
    using normaliseDate_month_words [of "''1 JUNE 2025''" _ "''june''" "''1''" "''2025''"]
      wd(4) nm(4) s5 e
    by simp
  have n: "regexp_match rx_direct (trim '' June 1st, 2025'') = None" by code_simp
  have r6: "\<exists>mon d y. mon \<in> set month_names
         \<and> (month_first_shape mon d y (lowered (trim '' June 1st, 2025''))
             \<or> day_first_shape mon d y (lowered (trim '' June 1st, 2025'')))
         \<and> ''2025-06-01'' = emitted mon d y"
    using normaliseDate_month_words [of "'' June 1st, 2025''" "''2025-06-01''"] r4 n
    by blast
  show ?thesis using r1 r2 r3 r4 r5 n r6 by blast
qed

end
